theory Spec2Isabelle
  imports Main "HOL-Library.Word" "HOL-Library.Signed_Division"
begin

section \<open>Machine integers\<close>

text \<open>
  The downloader computes with Go's \<open>int64\<close> (the file size and the range bounds) and with
  Go's \<open>int\<close> (the concurrency and the loop counters). Both are modelled as 64-bit
  two's-complement words, which is what \<open>int\<close> is on every 64-bit target; the conversion
  \<open>int64(i)\<close> is then the identity. Addition, subtraction and multiplication wrap around,
  comparison is signed, and division truncates towards zero and panics on a zero divisor.
\<close>

type_synonym int64 = "64 word"
type_synonym go_int = "64 word"
type_synonym byte = "8 word"

datatype go_panic = DivideByZero

text \<open>
  The \<open>error\<close> values the program can see: the error of a failed HTTP exchange, the error
  of \<open>http.NewRequest\<close>, the one error the program builds itself with \<open>fmt.Errorf\<close>, and
  the \<open>*os.PathError\<close> of a file operation (operation and path; the cause it wraps is left
  out).
\<close>

datatype go_error =
    TransportError string
  | RequestError string
  | Errorf string
  | PathError string string

text \<open>Go's \<open>a / b\<close> on \<open>int64\<close>: the quotient truncated towards zero, wrapped to 64 bits.\<close>

definition int64_div :: "int64 \<Rightarrow> int64 \<Rightarrow> go_panic + int64" where
  "int64_div a b = (if b = 0 then Inl DivideByZero else Inr (word_of_int (sint a sdiv sint b)))"

section \<open>The downloader\<close>

record Downloader =
  url :: string
  output_file :: string  \<comment> \<open>the field \<open>output\<close> (a reserved word here)\<close>
  concurrency :: go_int
  size64 :: int64  \<comment> \<open>the field \<open>size\<close>\<close>
  ranges :: "(int64 \<times> int64) list"

text \<open>\<open>NewDownloader\<close> leaves \<open>size\<close> and \<open>ranges\<close> at their zero values.\<close>

definition NewDownloader :: "string \<Rightarrow> string \<Rightarrow> go_int \<Rightarrow> Downloader" where
  "NewDownloader u out c =
     \<lparr>url = u, output_file = out, concurrency = c, size64 = 0, ranges = []\<rparr>"

subsection \<open>Planning the ranges\<close>

text \<open>
  The loop of \<open>calculateRanges\<close>, with the counter \<open>i\<close> as its argument: while
  \<open>i < d.concurrency\<close> it appends one range to \<open>d.ranges\<close> and increments \<open>i\<close>.
\<close>

function calculateRanges_loop :: "Downloader \<Rightarrow> int64 \<Rightarrow> go_int \<Rightarrow> Downloader" where
  "calculateRanges_loop d chunkSize i =
     (if i <s concurrency d then
        (let start = i * chunkSize;
             end0 = start + chunkSize - 1;
             end1 = (if i = concurrency d - 1 then size64 d - 1 else end0)
         in calculateRanges_loop (d\<lparr>ranges := ranges d @ [(start, end1)]\<rparr>) chunkSize (i + 1))
      else d)"
  by pat_completeness auto
termination
proof (relation "measure (\<lambda>(d, chunkSize, i). nat (sint (concurrency d) - sint i))", goal_cases)
  case 1
  show ?case by simp
next
  case (2 d chunkSize i start end0 end1)
  have up: "sint (concurrency d) < 2 ^ 63"
    using sint_lt [of "concurrency d"] by simp
  have lo: "- (2 ^ 63) \<le> sint i"
    using sint_ge [of i] by simp
  from 2 have lt: "sint i < sint (concurrency d)"
    by (simp add: word_sless_alt)
  have "sint (i + 1) = signed_take_bit 63 (sint i + 1)"
    by (simp add: sint_word_ariths)
  also have "\<dots> = sint i + 1"
    using lo lt up by (simp add: signed_take_bit_int_eq_self)
  finally have "sint (i + 1) = sint i + 1" .
  with lt show ?case by simp
qed

text \<open>
  \<open>calculateRanges\<close>: the division \<open>d.size / int64(d.concurrency)\<close> comes first and panics
  when the concurrency is zero; otherwise the loop runs from \<open>i = 0\<close>.
\<close>

definition calculateRanges :: "Downloader \<Rightarrow> go_panic + Downloader" where
  "calculateRanges d =
     (case int64_div (size64 d) (concurrency d) of
        Inl p \<Rightarrow> Inl p
      | Inr chunkSize \<Rightarrow> Inr (calculateRanges_loop d chunkSize 0))"

subsection \<open>Decimal rendering\<close>

text \<open>
  \<open>strconv.Itoa\<close> and the verb \<open>%d\<close>: the decimal digits of the number, most significant
  first, after a minus sign when it is negative.
\<close>

definition digit_char :: "nat \<Rightarrow> char" where
  "digit_char k = char_of (48 + k)"

function digits :: "nat \<Rightarrow> string" where
  "digits n = (if n < 10 then [digit_char n] else digits (n div 10) @ [digit_char (n mod 10)])"
  by pat_completeness auto
termination
  by (relation "measure (\<lambda>n. n)") auto

definition Itoa :: "int \<Rightarrow> string" where
  "Itoa i = (if i < 0 then CHR ''-'' # digits (nat (- i)) else digits (nat i))"

subsection \<open>The environment\<close>

text \<open>
  What the remote end answers, and the order in which the goroutines take their steps, are
  parameters of the model, collected in one record. A response carries the status
  code, the headers (each canonical key with the list of its values, empty when the header
  is absent) and \<open>ContentLength\<close>, which \<open>net/http\<close> sets to \<open>-1\<close> when the response
  declares no length. A stream is the bytes a reader delivers before it ends, and the error
  it ends with (\<open>None\<close> for a clean end of file).
\<close>

type_synonym stream = "byte list \<times> go_error option"

record response =
  StatusCode :: int
  Header :: "string \<Rightarrow> string list"
  ContentLength :: int64

record environment =
  http_Head :: "string \<Rightarrow> go_error + response"
  http_NewRequest :: "string \<Rightarrow> go_error option"
  http_Do :: "nat \<Rightarrow> string \<Rightarrow> string \<Rightarrow> go_error + stream"
  sched :: "nat list"

text \<open>
  \<open>http_Do net c u h\<close> is the outcome of \<open>http.DefaultClient.Do\<close> for the GET of \<open>u\<close>
  with the \<open>Range\<close> header \<open>h\<close> that is sent by the goroutine with index \<open>c\<close>: an error, or
  the body of the response. Every goroutine sends one request, so the remote end is free
  to answer every request of a download in its own way, also two requests for the same
  range. \<open>sched\<close> is the order in which the goroutines take their steps (see \<open>run_steps\<close>
  below).
\<close>

definition StatusOK :: int where
  "StatusOK = 200"

text \<open>\<open>Header.Get\<close>: the first value recorded under the key, or the empty string.\<close>

definition Header_Get :: "(string \<Rightarrow> string list) \<Rightarrow> string \<Rightarrow> string" where
  "Header_Get h key = (case h key of [] \<Rightarrow> [] | v # vs \<Rightarrow> v)"

subsection \<open>The capability probe\<close>

definition checkSupportRange :: "environment \<Rightarrow> Downloader \<Rightarrow> go_error option \<times> Downloader" where
  "checkSupportRange net d =
     (case http_Head net (url d) of
        Inl err \<Rightarrow> (Some err, d)
      | Inr resp \<Rightarrow>
          if StatusCode resp = StatusOK \<and> Header_Get (Header resp) ''Accept-Ranges'' = ''bytes''
          then (None, d\<lparr>size64 := ContentLength resp\<rparr>)
          else (Some (Errorf ''server does not support range requests''), d))"

subsection \<open>The file system\<close>

text \<open>
  The file system is a map from files to contents, with POSIX behaviour. The program
  names files by paths, and different paths can lead to the same file: \<open>0\<close> and \<open>./0\<close>,
  a relative and an absolute path, a path that goes through a link. Which file a path
  leads to is a parameter of the file system: \<open>file_of fs p\<close> is the file that the path
  \<open>p\<close> leads to, files being identified by names of their own (say their canonical
  paths), and \<open>files fs f\<close> is the content of the file \<open>f\<close>, if it exists. Removing a file
  through one of its paths removes the file; that a file with several hard links stays
  reachable through the others is not modelled.

  Five more parameters say where the operating system refuses: \<open>no_create\<close> (files that
  \<open>os.Create\<close> fails on), \<open>no_open\<close> (existing files that \<open>os.Open\<close> fails on),
  \<open>no_remove\<close> (files that \<open>os.Remove\<close> fails on, for instance because they are still
  open, as on Windows, or because the directory is protected), \<open>read_fault\<close> (reading the
  file breaks after that many bytes) and \<open>write_limit\<close> (the length that the file cannot
  grow beyond: the room on the device, or the largest file it can hold).
\<close>

record filesys =
  files :: "string \<rightharpoonup> byte list"
  file_of :: "string \<Rightarrow> string"
  no_create :: "string \<Rightarrow> bool"
  no_open :: "string \<Rightarrow> bool"
  no_remove :: "string \<Rightarrow> bool"
  read_fault :: "string \<Rightarrow> nat option"
  write_limit :: "string \<Rightarrow> nat"

text \<open>
  An open file is identified with the path it was opened by. \<open>os.Create\<close> makes the file
  empty, whether it existed or not. \<open>os.Open\<close> succeeds on an existing file that is not
  refused, and the reader it returns is that file. \<open>os.Remove\<close> removes the file unless it
  is refused; the program discards the error. The deferred \<open>Close\<close> calls have no effect
  on the files.
\<close>

datatype reader = Body stream | File string

definition os_Create :: "filesys \<Rightarrow> string \<Rightarrow> go_error + filesys" where
  "os_Create fs name =
     (if no_create fs (file_of fs name) then Inl (PathError ''open'' name)
      else Inr (fs\<lparr>files := (files fs)(file_of fs name \<mapsto> [])\<rparr>))"

definition os_Open :: "filesys \<Rightarrow> string \<Rightarrow> go_error + reader" where
  "os_Open fs name =
     (case files fs (file_of fs name) of
        None \<Rightarrow> Inl (PathError ''open'' name)
      | Some bs \<Rightarrow>
          if no_open fs (file_of fs name) then Inl (PathError ''open'' name)
          else Inr (File name))"

definition os_Remove :: "filesys \<Rightarrow> string \<Rightarrow> filesys" where
  "os_Remove fs name =
     (if no_remove fs (file_of fs name) then fs
      else fs\<lparr>files := (files fs)(file_of fs name := None)\<rparr>)"

text \<open>
  Appending to the file behind a handle, as far as the write limit allows. A write
  through a handle whose file has been removed reaches no file.
\<close>

definition file_Write :: "filesys \<Rightarrow> string \<Rightarrow> byte list \<Rightarrow> go_error option \<times> filesys" where
  "file_Write fs name bs =
     (case files fs (file_of fs name) of
        None \<Rightarrow> (None, fs)
      | Some old \<Rightarrow>
          if length old + length bs \<le> write_limit fs (file_of fs name)
          then (None, fs\<lparr>files := (files fs)(file_of fs name \<mapsto> old @ bs)\<rparr>)
          else (Some (PathError ''write'' name),
                fs\<lparr>files := (files fs)(file_of fs name \<mapsto>
                       old @ take (write_limit fs (file_of fs name) - length old) bs)\<rparr>))"

text \<open>
  \<open>io.Copy(dst, src)\<close> into a file. From a stream: everything the source delivers is
  written to the destination; a failed write ends the copy with the write error, otherwise
  the copy ends the way the source ends.
\<close>

definition copy_stream :: "filesys \<Rightarrow> string \<Rightarrow> stream \<Rightarrow> go_error option \<times> filesys" where
  "copy_stream fs dst src =
     (case file_Write fs dst (fst src) of
        (Some err, fs') \<Rightarrow> (Some err, fs')
      | (None, fs') \<Rightarrow> (snd src, fs'))"

text \<open>
  From a file: the copy reads the file from its start to its end. When the source is
  another file than the destination, or is empty, this is the copy of a stream that
  delivers the content of the file, or the part of it before the read fault. (On Linux the
  kernel does the copy between two files, and a failure of either side is reported as a
  write error on the destination.) When a file that is not empty is copied onto
  itself, every byte that is appended is one more byte to read, so that the end of the file
  is never reached: the file grows by repetitions of its content until a read or a write
  fails, which is at the write limit at the latest. \<open>cycle_take n xs\<close> is the first \<open>n\<close>
  elements of \<open>xs\<close> repeated for ever.
\<close>

definition cycle_take :: "nat \<Rightarrow> 'a list \<Rightarrow> 'a list" where
  "cycle_take n xs = take n (concat (replicate n xs))"

definition io_Copy :: "filesys \<Rightarrow> string \<Rightarrow> reader \<Rightarrow> go_error option \<times> filesys" where
  "io_Copy fs dst src =
     (case src of
        Body s \<Rightarrow> copy_stream fs dst s
      | File name \<Rightarrow>
          (case files fs (file_of fs name) of
             None \<Rightarrow> copy_stream fs dst ([], None)
           | Some bs \<Rightarrow>
               if file_of fs name = file_of fs dst \<and> bs \<noteq> [] then
                 (let room = write_limit fs (file_of fs dst) - length bs;
                      grow = (case read_fault fs (file_of fs name) of
                                None \<Rightarrow> room | Some k \<Rightarrow> min k room)
                  in (Some (PathError ''write'' dst),
                      fs\<lparr>files := (files fs)(file_of fs dst \<mapsto> bs @ cycle_take grow bs)\<rparr>))
               else
                 copy_stream fs dst
                   (case read_fault fs (file_of fs name) of
                      None \<Rightarrow> (bs, None)
                    | Some k \<Rightarrow> (take k bs, Some (PathError ''write'' dst)))))"

subsection \<open>Fetching one range\<close>

text \<open>The value of the \<open>Range\<close> header: \<open>fmt.Sprintf("bytes=%d-%d", r[0], r[1])\<close>.\<close>

definition range_header :: "int64 \<times> int64 \<Rightarrow> string" where
  "range_header r = ''bytes='' @ Itoa (sint (fst r)) @ ''-'' @ Itoa (sint (snd r))"

text \<open>
  \<open>downloadChunk\<close>. The argument \<open>c\<close> is not an argument of the Go function: it is the
  index of the goroutine that makes the call, by which the environment tells the requests
  apart.
\<close>

definition downloadChunk ::
  "environment \<Rightarrow> Downloader \<Rightarrow> nat \<Rightarrow> string \<Rightarrow> int64 \<times> int64 \<Rightarrow> filesys \<Rightarrow> go_error option \<times> filesys" where
  "downloadChunk net d c filename r fs =
     (case http_NewRequest net (url d) of
        Some err \<Rightarrow> (Some err, fs)
      | None \<Rightarrow>
          (case http_Do net c (url d) (range_header r) of
             Inl err \<Rightarrow> (Some err, fs)
           | Inr body \<Rightarrow>
               (case os_Create fs filename of
                  Inl err \<Rightarrow> (Some err, fs)
                | Inr fs1 \<Rightarrow> io_Copy fs1 filename (Body body))))"

subsection \<open>Merging\<close>

text \<open>
  The loop of \<open>mergeFiles\<close> with its counter as argument. The output file was opened
  before the loop; every round opens the scratch piece named by the counter, copies it to
  the output file and calls \<open>os.Remove\<close> on it, and the first error of an \<open>os.Open\<close> or
  an \<open>io.Copy\<close> ends the merge.
\<close>

function mergeFiles_loop :: "Downloader \<Rightarrow> go_int \<Rightarrow> filesys \<Rightarrow> go_error option \<times> filesys" where
  "mergeFiles_loop d i fs =
     (if i <s concurrency d then
        (case os_Open fs (Itoa (sint i)) of
           Inl err \<Rightarrow> (Some err, fs)
         | Inr tempFile \<Rightarrow>
             (case io_Copy fs (output_file d) tempFile of
                (Some err, fs1) \<Rightarrow> (Some err, fs1)
              | (None, fs1) \<Rightarrow> mergeFiles_loop d (i + 1) (os_Remove fs1 (Itoa (sint i)))))
      else (None, fs))"
  by pat_completeness auto
termination
proof (relation "measure (\<lambda>(d, i, fs). nat (sint (concurrency d) - sint i))", goal_cases)
  case 1
  show ?case by simp
next
  case (2 d i fs)
  have up: "sint (concurrency d) < 2 ^ 63"
    using sint_lt [of "concurrency d"] by simp
  have lo: "- (2 ^ 63) \<le> sint i"
    using sint_ge [of i] by simp
  from 2 have lt: "sint i < sint (concurrency d)"
    by (simp add: word_sless_alt)
  have "sint (i + 1) = signed_take_bit 63 (sint i + 1)"
    by (simp add: sint_word_ariths)
  also have "\<dots> = sint i + 1"
    using lo lt up by (simp add: signed_take_bit_int_eq_self)
  finally have "sint (i + 1) = sint i + 1" .
  with lt show ?case by simp
qed

definition mergeFiles :: "Downloader \<Rightarrow> filesys \<Rightarrow> go_error option \<times> filesys" where
  "mergeFiles d fs =
     (case os_Create fs (output_file d) of
        Inl err \<Rightarrow> (Some err, fs)
      | Inr fs1 \<Rightarrow> mergeFiles_loop d 0 fs1)"

subsection \<open>The download\<close>

text \<open>
  The log lines of the program, one constructor for each \<open>log\<close> call, with the values
  the line is formatted from. The state a download runs in is the file system and the
  log written so far.
\<close>

datatype log_event =
    LogChecking
  | LogSize int64
  | LogRanges "(int64 \<times> int64) list"
  | LogDownloading string "int64 \<times> int64"
  | LogErrorDownloading string go_error
  | LogFinished string
  | LogMerging
  | LogCompleted
  | LogFatalUsage
  | LogFatal go_error

record world =
  fsys :: filesys
  logged :: "log_event list"

definition log_line :: "log_event \<Rightarrow> world \<Rightarrow> world" where
  "log_line e w = w\<lparr>logged := logged w @ [e]\<rparr>"

text \<open>
  In the source file the \<open>for\<close> statement of \<open>Download\<close> that starts the goroutines is
  never closed, so that the file does not compile as it is. The model closes the loop
  right after the \<open>go\<close> statement, before \<open>wg.Wait()\<close>: this is what the indentation of
  the lines that follow, the use of the \<open>WaitGroup\<close> and the doc comment of \<open>Download\<close>
  show to be meant.

  The goroutine started for index \<open>i\<close> and range \<open>r\<close> names its scratch file
  \<open>strconv.Itoa(i)\<close>, logs that it starts, calls \<open>downloadChunk\<close> and logs how the call
  ended; the error of \<open>downloadChunk\<close> goes to the log and nowhere else. The goroutines
  run concurrently, so their steps interleave. A goroutine is at one of four points: it
  has not logged yet, it has logged and not called \<open>downloadChunk\<close> yet, it has the result
  of the call and has not logged it yet, or it has ended. \<open>step_task\<close> is the step it
  takes from each of these points. The calls of \<open>downloadChunk\<close> are taken as single
  steps: what the goroutines share is the log, while every call works on the scratch file
  of its own goroutine. (When two scratch names lead to the same file the calls do share
  a file; the statements below that say what the files hold assume that they do not.)
\<close>

datatype task_point = Ready | Fetching | Fetched "go_error option" | Ended

definition step_task ::
  "environment \<Rightarrow> Downloader \<Rightarrow> nat \<times> (int64 \<times> int64) \<Rightarrow> task_point \<times> world \<Rightarrow> task_point \<times> world" where
  "step_task net d ir s =
     (let filename = Itoa (int (fst ir)); w = snd s
      in case fst s of
           Ready \<Rightarrow> (Fetching, log_line (LogDownloading filename (snd ir)) w)
         | Fetching \<Rightarrow>
             (case downloadChunk net d (fst ir) filename (snd ir) (fsys w) of
                (err, fs') \<Rightarrow> (Fetched err, w\<lparr>fsys := fs'\<rparr>))
         | Fetched err \<Rightarrow>
             (case err of
                Some e \<Rightarrow> (Ended, log_line (LogErrorDownloading filename e) w)
              | None \<Rightarrow> (Ended, log_line (LogFinished filename) w))
         | Ended \<Rightarrow> (Ended, w))"

text \<open>
  The loop \<open>for i, r := range d.ranges\<close> starts one goroutine for every index. A state of
  the fetch phase is the point every goroutine is at, together with the file system and
  the log. \<open>step_at net d i\<close> lets goroutine \<open>i\<close> take its next step, and \<open>run_steps\<close>
  takes the steps that a list of indices names, one after the other. The list \<open>sched\<close> of
  the environment is arbitrary, so every interleaving of the steps of the goroutines is
  the run of some environment. \<open>wg.Wait()\<close> returns when all goroutines have ended:
  \<open>wait_all\<close> lets every goroutine that has not ended take the steps it has left.
\<close>

definition step_at ::
  "environment \<Rightarrow> Downloader \<Rightarrow> nat \<Rightarrow> task_point list \<times> world \<Rightarrow> task_point list \<times> world" where
  "step_at net d i s =
     (if i < length (ranges d) \<and> i < length (fst s) then
        (case step_task net d (i, ranges d ! i) (fst s ! i, snd s) of
           (p, w) \<Rightarrow> ((fst s)[i := p], w))
      else s)"

primrec run_steps ::
  "environment \<Rightarrow> Downloader \<Rightarrow> nat list \<Rightarrow> task_point list \<times> world \<Rightarrow> task_point list \<times> world" where
  "run_steps net d [] s = s"
| "run_steps net d (i # order) s = run_steps net d order (step_at net d i s)"

definition wait_all :: "nat \<Rightarrow> nat list" where
  "wait_all n = concat (map (\<lambda>i. [i, i, i]) [0..<n])"

definition fetch_phase :: "environment \<Rightarrow> Downloader \<Rightarrow> world \<Rightarrow> world" where
  "fetch_phase net d w =
     snd (run_steps net d (sched net @ wait_all (length (ranges d)))
            (replicate (length (ranges d)) Ready, w))"

text \<open>
  \<open>Download\<close> returns how the call ended (a panic, or the returned \<open>error\<close>, \<open>None\<close> for
  \<open>nil\<close>), the downloader and the state it leaves.
\<close>

definition Download ::
  "environment \<Rightarrow> Downloader \<Rightarrow> world \<Rightarrow> (go_panic + go_error option) \<times> Downloader \<times> world" where
  "Download net d w =
     (let w0 = log_line LogChecking w
      in case checkSupportRange net d of
           (Some err, d0) \<Rightarrow> (Inr (Some err), d0, w0)
         | (None, d1) \<Rightarrow>
             (let w1 = log_line (LogSize (size64 d1)) w0
              in case calculateRanges d1 of
                   Inl p \<Rightarrow> (Inl p, d1, w1)
                 | Inr d2 \<Rightarrow>
                     (let w2 = log_line (LogRanges (ranges d2)) w1;
                          w3 = fetch_phase net d2 w2;
                          w4 = log_line LogMerging w3
                      in case mergeFiles d2 (fsys w4) of
                           (Some err, fs') \<Rightarrow> (Inr (Some err), d2, w4\<lparr>fsys := fs'\<rparr>)
                         | (None, fs') \<Rightarrow>
                             (Inr None, d2, log_line LogCompleted (w4\<lparr>fsys := fs'\<rparr>)))))"

text \<open>
  \<open>main\<close>, from the parsed flags on: \<open>log.Fatal\<close> ends the process with status 1, a
  panic with status 2.
\<close>

datatype exit_status = Exit0 | Exit1 | Exit2 go_panic

definition main :: "environment \<Rightarrow> string \<Rightarrow> string \<Rightarrow> go_int \<Rightarrow> world \<Rightarrow> exit_status \<times> world" where
  "main net urlFlag outputFlag concurrencyFlag w =
     (if urlFlag = [] \<or> outputFlag = [] then (Exit1, log_line LogFatalUsage w)
      else
        (case Download net (NewDownloader urlFlag outputFlag concurrencyFlag) w of
           (Inl p, d', w') \<Rightarrow> (Exit2 p, w')
         | (Inr (Some err), d', w') \<Rightarrow> (Exit1, log_line (LogFatal err) w')
         | (Inr None, d', w') \<Rightarrow> (Exit0, w')))"

section \<open>Reading a plan\<close>

text \<open>
  Auxiliary notions for stating the properties of the planner. \<open>range_at d chunkSize i\<close>
  is the range that the body of the loop of \<open>calculateRanges\<close> appends when its counter is
  \<open>i\<close>, and \<open>planned d\<close> lists these ranges for the counters \<open>0, 1, \<dots>\<close> below the
  concurrency. \<open>range_ival\<close> reads the two bounds of a range as signed integers, and
  \<open>bytes_of\<close> is the set of byte offsets between them, both included.
\<close>

definition range_at :: "Downloader \<Rightarrow> int64 \<Rightarrow> go_int \<Rightarrow> int64 \<times> int64" where
  "range_at d chunkSize i =
     (i * chunkSize, if i = concurrency d - 1 then size64 d - 1 else i * chunkSize + chunkSize - 1)"

definition planned :: "Downloader \<Rightarrow> (int64 \<times> int64) list" where
  "planned d = map (\<lambda>k. range_at d (word_of_int (sint (size64 d) sdiv sint (concurrency d))) (word_of_int k))
                 [0 .. sint (concurrency d) - 1]"

definition range_ival :: "int64 \<times> int64 \<Rightarrow> int \<times> int" where
  "range_ival r = (sint (fst r), sint (snd r))"

definition bytes_of :: "int64 \<times> int64 \<Rightarrow> int set" where
  "bytes_of r = {sint (fst r) .. sint (snd r)}"

section \<open>Reading the file system and the log\<close>

text \<open>
  Auxiliary notions for stating what the merge and the fetch tasks do. \<open>scratch_names k\<close>
  lists the names of the scratch pieces \<open>0, \<dots>, k - 1\<close>, and \<open>names_from a k\<close> those of the
  pieces \<open>a, \<dots>, k - 1\<close>. \<open>apart fs out k\<close> says that the path \<open>out\<close> and the names of the
  scratch pieces \<open>0, \<dots>, k - 1\<close> lead to \<open>k + 1\<close> different files. \<open>piece fs j\<close> is the
  content of scratch piece \<open>j\<close> in \<open>fs\<close> (empty when there is no such file).
  \<open>reads fs name bs\<close> says that the file named \<open>name\<close> can be opened and read to its end,
  and that its content is \<open>bs\<close>. \<open>fits fs name n\<close> says that the write limit lets the
  file named \<open>name\<close> reach the length \<open>n\<close>. \<open>merged fs out p k\<close> is the file system after
  the pieces \<open>p 0, \<dots>, p (k - 1)\<close> have been appended to the file named \<open>out\<close> and
  \<open>os.Remove\<close> has been called on each of them: a piece whose removal is refused is still
  there. \<open>same_oracles\<close> relates two file systems that resolve paths in the same way and
  refuse the same operations. \<open>task_events\<close> lists the two log lines of one goroutine, and
  \<open>emitted\<close> those of them that a goroutine has written when it is at a given point.
  \<open>fetch_inv\<close> is the invariant of the fetch phase that started in the state \<open>w0\<close>: no
  goroutine was added or lost, the parameters of the file system are unchanged, a
  goroutine that holds the result of \<open>downloadChunk\<close> holds what the call returns on the
  initial file system, the log has grown by the lines that the goroutines have written so
  far, in some order, and, when the scratch names lead to different files, the file of a
  goroutine is what its call of \<open>downloadChunk\<close> leaves, or untouched before the call, and
  all other files are untouched.
\<close>

definition scratch_names :: "nat \<Rightarrow> string list" where
  "scratch_names k = map (\<lambda>j. Itoa (int j)) [0..<k]"

definition names_from :: "nat \<Rightarrow> nat \<Rightarrow> string list" where
  "names_from a k = map (\<lambda>j. Itoa (int j)) [a..<k]"

definition apart :: "filesys \<Rightarrow> string \<Rightarrow> nat \<Rightarrow> bool" where
  "apart fs out k \<longleftrightarrow> distinct (map (file_of fs) (out # scratch_names k))"

definition piece :: "filesys \<Rightarrow> nat \<Rightarrow> byte list" where
  "piece fs j = (case files fs (file_of fs (Itoa (int j))) of None \<Rightarrow> [] | Some bs \<Rightarrow> bs)"

definition reads :: "filesys \<Rightarrow> string \<Rightarrow> byte list \<Rightarrow> bool" where
  "reads fs name bs \<longleftrightarrow> os_Open fs name = Inr (File name)
     \<and> files fs (file_of fs name) = Some bs \<and> read_fault fs (file_of fs name) = None"

definition fits :: "filesys \<Rightarrow> string \<Rightarrow> nat \<Rightarrow> bool" where
  "fits fs name n \<longleftrightarrow> n \<le> write_limit fs (file_of fs name)"

definition merged :: "filesys \<Rightarrow> string \<Rightarrow> (nat \<Rightarrow> byte list) \<Rightarrow> nat \<Rightarrow> filesys" where
  "merged fs out p k =
     fs\<lparr>files := (\<lambda>f. if f = file_of fs out then Some (concat (map p [0..<k]))
                     else if f \<in> file_of fs ` set (scratch_names k) \<and> \<not> no_remove fs f then None
                     else files fs f)\<rparr>"

definition same_oracles :: "filesys \<Rightarrow> filesys \<Rightarrow> bool" where
  "same_oracles a b \<longleftrightarrow> file_of a = file_of b \<and> no_create a = no_create b \<and> no_open a = no_open b
     \<and> no_remove a = no_remove b \<and> read_fault a = read_fault b \<and> write_limit a = write_limit b"

definition task_events :: "environment \<Rightarrow> Downloader \<Rightarrow> filesys \<Rightarrow> nat \<times> (int64 \<times> int64) \<Rightarrow> log_event list" where
  "task_events net d fs ir =
     [LogDownloading (Itoa (int (fst ir))) (snd ir),
      case fst (downloadChunk net d (fst ir) (Itoa (int (fst ir))) (snd ir) fs) of
        Some err \<Rightarrow> LogErrorDownloading (Itoa (int (fst ir))) err
      | None \<Rightarrow> LogFinished (Itoa (int (fst ir)))]"

definition emitted :: "task_point \<Rightarrow> log_event list \<Rightarrow> log_event list" where
  "emitted p evs = (case p of Ready \<Rightarrow> [] | Fetching \<Rightarrow> take 1 evs | Fetched err \<Rightarrow> take 1 evs | Ended \<Rightarrow> evs)"

definition fetch_inv :: "environment \<Rightarrow> Downloader \<Rightarrow> world \<Rightarrow> task_point list \<times> world \<Rightarrow> bool" where
  "fetch_inv net d w0 s \<longleftrightarrow>
     length (fst s) = length (ranges d)
   \<and> same_oracles (fsys w0) (fsys (snd s))
   \<and> (\<forall>i<length (ranges d). \<forall>err. fst s ! i = Fetched err \<longrightarrow>
         err = fst (downloadChunk net d i (Itoa (int i)) (ranges d ! i) (fsys w0)))
   \<and> (\<exists>lg. logged (snd s) = logged w0 @ lg
         \<and> set lg = (\<Union>i<length (ranges d).
               set (emitted (fst s ! i) (task_events net d (fsys w0) (i, ranges d ! i)))))
   \<and> (distinct (map (file_of (fsys w0)) (scratch_names (length (ranges d)))) \<longrightarrow>
         (\<forall>f. f \<notin> file_of (fsys w0) ` set (scratch_names (length (ranges d))) \<longrightarrow>
             files (fsys (snd s)) f = files (fsys w0) f)
       \<and> (\<forall>i<length (ranges d).
             files (fsys (snd s)) (file_of (fsys w0) (Itoa (int i))) =
               (if fst s ! i = Ready \<or> fst s ! i = Fetching
                then files (fsys w0) (file_of (fsys w0) (Itoa (int i)))
                else files (snd (downloadChunk net d i (Itoa (int i)) (ranges d ! i) (fsys w0)))
                       (file_of (fsys w0) (Itoa (int i))))))"

section \<open>Example environments\<close>

text \<open>
  Concrete inputs for the examples: responses to the probe with status 200 and with
  status 206, with and without the \<open>Accept-Ranges\<close> header, an environment that gives a
  fixed answer to the probe, answers the range requests by a given function of the
  \<open>Range\<close> header and lets the goroutines run one after the other, and a file system that
  holds the given files, in which every path leads to the file of that name, and which
  refuses nothing (every file can grow to a million bytes).
\<close>

definition head_ok :: "int64 \<Rightarrow> response" where
  "head_ok n = \<lparr>StatusCode = 200,
     Header = (\<lambda>k. if k = ''Accept-Ranges'' then [''bytes''] else []), ContentLength = n\<rparr>"

definition head_partial :: "int64 \<Rightarrow> response" where
  "head_partial n = \<lparr>StatusCode = 206,
     Header = (\<lambda>k. if k = ''Accept-Ranges'' then [''bytes''] else []), ContentLength = n\<rparr>"

definition head_plain :: "int64 \<Rightarrow> response" where
  "head_plain n = \<lparr>StatusCode = 200, Header = (\<lambda>k. []), ContentLength = n\<rparr>"

definition server :: "(go_error + response) \<Rightarrow> (string \<Rightarrow> go_error + stream) \<Rightarrow> environment" where
  "server h g = \<lparr>http_Head = (\<lambda>u. h), http_NewRequest = (\<lambda>u. None),
     http_Do = (\<lambda>c u. g), sched = []\<rparr>"

definition no_body :: "string \<Rightarrow> go_error + stream" where
  "no_body h = Inl (TransportError ''connection refused'')"

definition first_chunk_only :: "string \<Rightarrow> go_error + stream" where
  "first_chunk_only h =
     (if h = ''bytes=0-1'' then Inr ([10, 11], None) else Inl (TransportError ''connection reset''))"

definition both_chunks :: "string \<Rightarrow> go_error + stream" where
  "both_chunks h =
     (if h = ''bytes=0-1'' then Inr ([10, 11], None)
      else if h = ''bytes=2-3'' then Inr ([12, 13], None)
      else Inl (TransportError ''connection reset''))"

definition two_of_three :: "string \<Rightarrow> go_error + stream" where
  "two_of_three h =
     (if h = ''bytes=0-1'' then Inr ([10, 11], None)
      else if h = ''bytes=2-3'' then Inr ([12, 13], None)
      else Inl (TransportError ''connection reset''))"

definition disk :: "(string \<rightharpoonup> byte list) \<Rightarrow> filesys" where
  "disk m = \<lparr>files = m, file_of = (\<lambda>p. p), no_create = (\<lambda>p. False), no_open = (\<lambda>p. False),
     no_remove = (\<lambda>p. False), read_fault = (\<lambda>p. None), write_limit = (\<lambda>p. 1000000)\<rparr>"

definition two_pieces :: "nat \<Rightarrow> byte list" where
  "two_pieces j = (if j = 0 then [1, 2] else [3])"
section \<open>The planner\<close>

declare calculateRanges_loop.simps [simp del]

subsection \<open>The loop in closed form\<close>

lemma sint_succ_below:
  fixes i c :: "64 word"
  assumes "i <s c"
  shows "sint (i + 1) = sint i + 1"
proof -
  have up: "sint c < 2 ^ 63" using sint_lt [of c] by simp
  have lo: "- (2 ^ 63) \<le> sint i" using sint_ge [of i] by simp
  from assms have lt: "sint i < sint c" by (simp add: word_sless_alt)
  have "sint (i + 1) = signed_take_bit 63 (sint i + 1)"
    by (simp add: sint_word_ariths)
  also have "\<dots> = sint i + 1"
    using lo lt up by (simp add: signed_take_bit_int_eq_self)
  finally show ?thesis .
qed

lemma range_at_ranges [simp]: "range_at (d\<lparr>ranges := rs\<rparr>) cs i = range_at d cs i"
  by (simp add: range_at_def)

lemma calculateRanges_loop_closed:
  "calculateRanges_loop d cs i =
     d\<lparr>ranges := ranges d @ map (\<lambda>k. range_at d cs (word_of_int k)) [sint i .. sint (concurrency d) - 1]\<rparr>"
proof (induction d cs i rule: calculateRanges_loop.induct)
  case (1 d cs i)
  show ?case
  proof (cases "i <s concurrency d")
    case False
    then have "[sint i .. sint (concurrency d) - 1] = []"
      by (simp add: word_sless_alt)
    with False show ?thesis by (subst calculateRanges_loop.simps) simp
  next
    case True
    then have lt: "sint i < sint (concurrency d)" by (simp add: word_sless_alt)
    have split: "[sint i .. sint (concurrency d) - 1] = sint i # [sint (i + 1) .. sint (concurrency d) - 1]"
      using lt sint_succ_below [OF True] by (simp add: upto_rec1)
    have step: "calculateRanges_loop d cs i =
        calculateRanges_loop (d\<lparr>ranges := ranges d @ [range_at d cs i]\<rparr>) cs (i + 1)"
      using True by (subst calculateRanges_loop.simps) (simp add: range_at_def Let_def)
    show ?thesis
      unfolding step
      using "1.IH" [OF True refl refl refl]
      by (simp add: split range_at_def Let_def)
  qed
qed

lemma sint_woi64: "- (2 ^ 63) \<le> x \<Longrightarrow> x < 2 ^ 63 \<Longrightarrow> sint (word_of_int x :: 64 word) = x"
  by (simp add: sint_sbintrunc' signed_take_bit_int_eq_self)

lemma sdiv_nonneg_pos: "0 \<le> (t::int) \<Longrightarrow> 0 < n \<Longrightarrow> t sdiv n = t div n"
  by (simp add: signed_divide_int_def sgn_if)

lemma mult_div_le_int: "0 < (n::int) \<Longrightarrow> n * (t div n) \<le> t"
  using mult_div_mod_eq [of n t] pos_mod_sign [of n t] by linarith

lemma chunk_mult_le:
  fixes t n k :: int
  assumes "0 < n" "0 \<le> t" "0 \<le> k" "k < n"
  shows "0 \<le> k * (t div n)" "k * (t div n) + t div n \<le> t"
proof -
  have cs: "0 \<le> t div n" using assms by (simp add: pos_imp_zdiv_nonneg_iff)
  show "0 \<le> k * (t div n)" using cs assms by simp
  have "(k + 1) * (t div n) \<le> n * (t div n)"
    using assms cs by (intro mult_right_mono) auto
  also have "\<dots> \<le> t" using assms(1) by (rule mult_div_le_int)
  finally show "k * (t div n) + t div n \<le> t" by (simp add: algebra_simps)
qed

lemma range_ival_range_at:
  fixes k :: int
  assumes n: "0 < sint (concurrency d)" and t: "0 \<le> sint (size64 d)"
    and k: "0 \<le> k" "k < sint (concurrency d)"
  shows "range_ival (range_at d (word_of_int (sint (size64 d) sdiv sint (concurrency d))) (word_of_int k))
     = (k * (sint (size64 d) div sint (concurrency d)),
        if k = sint (concurrency d) - 1 then sint (size64 d) - 1
        else k * (sint (size64 d) div sint (concurrency d)) + sint (size64 d) div sint (concurrency d) - 1)"
proof -
  define n where "n = sint (concurrency d)"
  define t where "t = sint (size64 d)"
  define cs where "cs = t div n"
  have c_eq: "concurrency d = word_of_int n" and sz_eq: "size64 d = word_of_int t"
    by (simp_all add: n_def t_def)
  have n_up: "n < 2 ^ 63" using sint_lt [of "concurrency d"] by (simp add: n_def)
  have t_up: "t < 2 ^ 63" using sint_lt [of "size64 d"] by (simp add: t_def)
  have n0: "0 < n" and t0: "0 \<le> t" and k0: "0 \<le> k" and kn: "k < n"
    using assms by (simp_all add: n_def t_def)
  have sd: "t sdiv n = cs" using n0 t0 by (simp add: sdiv_nonneg_pos cs_def)
  have cs0: "0 \<le> cs" using n0 t0 by (simp add: cs_def pos_imp_zdiv_nonneg_iff)
  have b1: "0 \<le> k * cs" and b2: "k * cs + cs \<le> t"
    using chunk_mult_le [OF n0 t0 k0 kn] by (simp_all add: cs_def)
  have s1: "sint (word_of_int (k * cs) :: 64 word) = k * cs"
    using b1 b2 cs0 t_up by (intro sint_woi64) linarith+
  have s2: "sint (word_of_int (k * cs + cs - 1) :: 64 word) = k * cs + cs - 1"
    using b1 b2 cs0 t_up by (intro sint_woi64) linarith+
  have s3: "sint (word_of_int (t - 1) :: 64 word) = t - 1"
    using t0 t_up by (intro sint_woi64) linarith+
  have last: "(word_of_int k = (word_of_int n - 1 :: 64 word)) \<longleftrightarrow> k = n - 1"
  proof
    assume "word_of_int k = (word_of_int n - 1 :: 64 word)"
    then have "sint (word_of_int k :: 64 word) = sint (word_of_int (n - 1) :: 64 word)"
      by (simp add: wi_hom_sub [symmetric])
    moreover have "sint (word_of_int k :: 64 word) = k"
      using k0 kn n_up by (intro sint_woi64) linarith+
    moreover have "sint (word_of_int (n - 1) :: 64 word) = n - 1"
      using n0 n_up by (intro sint_woi64) linarith+
    ultimately show "k = n - 1" by simp
  next
    assume "k = n - 1"
    then show "word_of_int k = (word_of_int n - 1 :: 64 word)" by simp
  qed
  have e1: "word_of_int k * (word_of_int cs :: 64 word) = word_of_int (k * cs)"
    by (simp only: wi_hom_mult)
  have e2: "word_of_int (k * cs) + word_of_int cs - (1 :: 64 word) = word_of_int (k * cs + cs - 1)"
    by (simp only: wi_hom_add wi_hom_sub word_of_int_1 [symmetric])
  have e3: "word_of_int t - (1 :: 64 word) = word_of_int (t - 1)"
    by (simp only: wi_hom_sub word_of_int_1 [symmetric])
  have "range_ival (range_at d (word_of_int (t sdiv n)) (word_of_int k))
      = (k * cs, if k = n - 1 then t - 1 else k * cs + cs - 1)"
    unfolding range_at_def range_ival_def sd c_eq sz_eq last e1 e2 e3
    by (simp only: fst_conv snd_conv s1 s2 s3 if_distrib [of sint] Downloader.simps)
  then show ?thesis by (simp add: n_def t_def cs_def)
qed

lemma calculateRanges_zero: "concurrency d = 0 \<Longrightarrow> calculateRanges d = Inl DivideByZero"
  by (simp add: calculateRanges_def int64_div_def)

lemma calculateRanges_planned:
  "concurrency d \<noteq> 0 \<Longrightarrow> calculateRanges d = Inr (d\<lparr>ranges := ranges d @ planned d\<rparr>)"
  by (simp add: calculateRanges_def int64_div_def calculateRanges_loop_closed planned_def)

lemma planned_ranges [simp]: "planned (d\<lparr>ranges := rs\<rparr>) = planned d"
  by (simp add: planned_def)

lemma length_planned: "length (planned d) = nat (sint (concurrency d))"
  by (simp add: planned_def)

lemma nth_planned:
  assumes "0 < sint (concurrency d)" "0 \<le> sint (size64 d)" "i < nat (sint (concurrency d))"
  shows "range_ival (planned d ! i) =
      (int i * (sint (size64 d) div sint (concurrency d)),
        if int i = sint (concurrency d) - 1 then sint (size64 d) - 1
        else int i * (sint (size64 d) div sint (concurrency d)) + sint (size64 d) div sint (concurrency d) - 1)"
proof -
  have "planned d ! i = range_at d (word_of_int (sint (size64 d) sdiv sint (concurrency d))) (word_of_int (int i))"
    using assms by (simp add: planned_def)
  moreover have "0 \<le> int i" "int i < sint (concurrency d)" using assms by simp_all
  ultimately show ?thesis
    using range_ival_range_at [OF assms(1) assms(2), of "int i"] by simp
qed

lemma bytes_of_ival: "bytes_of r = {fst (range_ival r) .. snd (range_ival r)}"
  by (simp add: bytes_of_def range_ival_def)

lemma plan_cover_int:
  fixes n t :: int
  assumes n0: "0 < n" and tn: "n \<le> t"
  defines "cs \<equiv> t div n"
  defines "R \<equiv> \<lambda>i::nat. (int i * cs, if int i = n - 1 then t - 1 else int i * cs + cs - 1)"
  shows "(\<Union>i<nat n. {fst (R i) .. snd (R i)}) = {0 .. t - 1}"
    and "\<forall>i<nat n. fst (R i) \<le> snd (R i)"
    and "\<forall>i j. i < j \<and> j < nat n \<longrightarrow> snd (R i) < fst (R j)"
proof -
  have cs1: "1 \<le> cs"
    unfolding cs_def using n0 tn by (metis div_self less_irrefl zdiv_mono1)
  have ncs: "n * cs \<le> t"
    unfolding cs_def using n0 by (rule mult_div_le_int)
  have lastle: "(n - 1) * cs \<le> t - 1"
    using ncs cs1 by (simp add: algebra_simps)
  have mono: "int i * cs + cs \<le> (n - 1) * cs" if "int i < n - 1" for i
  proof -
    have "(int i + 1) * cs \<le> (n - 1) * cs"
      using that cs1 by (intro mult_right_mono) auto
    then show ?thesis by (simp add: algebra_simps)
  qed
  show ne: "\<forall>i<nat n. fst (R i) \<le> snd (R i)"
  proof (intro allI impI)
    fix i assume "i < nat n"
    then have "int i \<le> n - 1" by simp
    then show "fst (R i) \<le> snd (R i)"
      using cs1 lastle by (auto simp: R_def)
  qed
  show "\<forall>i j. i < j \<and> j < nat n \<longrightarrow> snd (R i) < fst (R j)"
  proof (intro allI impI)
    fix i j assume ij: "i < j \<and> j < nat n"
    then have ne: "int i \<noteq> n - 1" by auto
    have "(int i + 1) * cs \<le> int j * cs"
      using ij cs1 by (intro mult_right_mono) auto
    then show "snd (R i) < fst (R j)"
      using ne by (simp add: R_def algebra_simps)
  qed
  show "(\<Union>i<nat n. {fst (R i) .. snd (R i)}) = {0 .. t - 1}"
  proof (intro equalityI subsetI)
    fix x assume "x \<in> (\<Union>i<nat n. {fst (R i) .. snd (R i)})"
    then obtain i where i: "i < nat n" and x: "fst (R i) \<le> x" "x \<le> snd (R i)" by auto
    have "0 \<le> int i * cs" using cs1 by simp
    moreover have "snd (R i) \<le> t - 1"
    proof (cases "int i = n - 1")
      case True then show ?thesis by (simp add: R_def)
    next
      case False
      with i have "int i < n - 1" by simp
      from mono [OF this] lastle show ?thesis using False by (simp add: R_def)
    qed
    ultimately show "x \<in> {0 .. t - 1}" using x by (simp add: R_def)
  next
    fix x assume "x \<in> {0 .. t - 1}"
    then have x0: "0 \<le> x" and xt: "x \<le> t - 1" by simp_all
    define k where "k = min (x div cs) (n - 1)"
    have cs0: "0 < cs" using cs1 by simp
    have k0: "0 \<le> k" using x0 cs0 n0 by (simp add: k_def pos_imp_zdiv_nonneg_iff)
    have kn: "k \<le> n - 1" by (simp add: k_def)
    have lo: "k * cs \<le> x"
    proof -
      have "k * cs \<le> (x div cs) * cs"
        using cs0 by (intro mult_right_mono) (auto simp: k_def)
      also have "\<dots> \<le> x" using mult_div_le_int [OF cs0, of x] by (simp add: mult.commute)
      finally show ?thesis .
    qed
    have hi: "x \<le> snd (R (nat k))"
    proof (cases "k = n - 1")
      case True
      then show ?thesis using xt k0 by (simp add: R_def)
    next
      case False
      then have kx: "k = x div cs" using kn by (auto simp: k_def min_def split: if_splits)
      have "cs * (x div cs) + x mod cs = x" by simp
      moreover have "x mod cs < cs" using cs0 by simp
      ultimately have "x < cs * (x div cs) + cs" by linarith
      then have "x < k * cs + cs" using kx by (simp add: mult.commute)
      then show ?thesis using False k0 by (simp add: R_def)
    qed
    have "nat k < nat n" using k0 kn n0 by simp
    moreover have "x \<in> {fst (R (nat k)) .. snd (R (nat k))}"
      using lo hi k0 by (simp add: R_def)
    ultimately show "x \<in> (\<Union>i<nat n. {fst (R i) .. snd (R i)})" by blast
  qed
qed

text \<open>
  Claim C1. When the concurrency is positive and not larger than the size,
  \<open>calculateRanges\<close> appends exactly as many ranges as the concurrency says. With
  \<open>chunkSize\<close> the truncated quotient of size and concurrency, range \<open>i\<close> is
  \<open>[i * chunkSize, i * chunkSize + chunkSize - 1]\<close>, except that the last range ends at
  \<open>size - 1\<close>. The first range starts at 0, every range starts one past the end of the
  range before it, no range is empty, two different ranges share no byte, and together
  the ranges hold exactly the offsets \<open>0, \<dots>, size - 1\<close>.
\<close>

theorem calculateRanges_partition:
  assumes pos: "0 <s concurrency d" and le: "concurrency d \<le>s size64 d"
  shows "\<exists>rs. calculateRanges d = Inr (d\<lparr>ranges := ranges d @ rs\<rparr>)
    \<and> length rs = nat (sint (concurrency d))
    \<and> (\<forall>i<length rs. range_ival (rs ! i) =
          (let chunkSize = sint (size64 d) sdiv sint (concurrency d)
           in (int i * chunkSize,
               if int i = sint (concurrency d) - 1 then sint (size64 d) - 1
               else int i * chunkSize + chunkSize - 1)))
    \<and> fst (range_ival (rs ! 0)) = 0
    \<and> snd (range_ival (last rs)) = sint (size64 d) - 1
    \<and> (\<forall>i. Suc i < length rs \<longrightarrow> fst (range_ival (rs ! Suc i)) = snd (range_ival (rs ! i)) + 1)
    \<and> (\<forall>i<length rs. fst (range_ival (rs ! i)) \<le> snd (range_ival (rs ! i)))
    \<and> (\<forall>i j. i < j \<and> j < length rs \<longrightarrow> bytes_of (rs ! i) \<inter> bytes_of (rs ! j) = {})
    \<and> (\<Union>r\<in>set rs. bytes_of r) = {0 .. sint (size64 d) - 1}"
proof -
  define n where "n = sint (concurrency d)"
  define t where "t = sint (size64 d)"
  define cs where "cs = t div n"
  define R where "R = (\<lambda>i::nat. (int i * cs, if int i = n - 1 then t - 1 else int i * cs + cs - 1))"
  define rs where "rs = planned d"
  have n0: "0 < n" using pos by (simp add: n_def word_sless_alt)
  have tn: "n \<le> t" using le by (simp add: n_def t_def word_sle_eq)
  have t0: "0 \<le> t" using n0 tn by simp
  have sd: "t sdiv n = cs" using n0 t0 by (simp add: cs_def sdiv_nonneg_pos)
  have len: "length rs = nat n" by (simp add: rs_def n_def length_planned)
  have nth: "range_ival (rs ! i) = R i" if "i < nat n" for i
    using nth_planned [of d i] n0 t0 that by (simp add: rs_def R_def n_def t_def cs_def)
  have cover: "(\<Union>i<nat n. {fst (R i) .. snd (R i)}) = {0 .. t - 1}"
    unfolding R_def cs_def by (rule plan_cover_int(1) [OF n0 tn])
  have nonempty: "\<forall>i<nat n. fst (R i) \<le> snd (R i)"
    unfolding R_def cs_def by (rule plan_cover_int(2) [OF n0 tn])
  have apart: "\<forall>i j. i < j \<and> j < nat n \<longrightarrow> snd (R i) < fst (R j)"
    unfolding R_def cs_def by (rule plan_cover_int(3) [OF n0 tn])
  have nz: "concurrency d \<noteq> 0" using pos by auto
  have c1: "calculateRanges d = Inr (d\<lparr>ranges := ranges d @ rs\<rparr>)"
    using nz by (simp add: calculateRanges_planned rs_def)
  have c3: "\<forall>i<length rs. range_ival (rs ! i) =
          (let chunkSize = t sdiv n
           in (int i * chunkSize, if int i = n - 1 then t - 1 else int i * chunkSize + chunkSize - 1))"
    using nth by (simp add: len sd R_def)
  have c4: "fst (range_ival (rs ! 0)) = 0"
    using nth [of 0] n0 by (simp add: R_def)
  have ne: "rs \<noteq> []" using len n0 by auto
  have "last rs = rs ! (nat n - 1)" using ne len by (simp add: last_conv_nth)
  moreover have "int (nat n - 1) = n - 1" using n0 by simp
  ultimately have c5: "snd (range_ival (last rs)) = t - 1"
    using nth [of "nat n - 1"] n0 by (simp add: R_def)
  have c6: "\<forall>i. Suc i < length rs \<longrightarrow> fst (range_ival (rs ! Suc i)) = snd (range_ival (rs ! i)) + 1"
  proof (intro allI impI)
    fix i assume a: "Suc i < length rs"
    then have "int i \<noteq> n - 1" using len by auto
    then show "fst (range_ival (rs ! Suc i)) = snd (range_ival (rs ! i)) + 1"
      using nth [of i] nth [of "Suc i"] a len by (simp add: R_def algebra_simps)
  qed
  have c7: "\<forall>i<length rs. fst (range_ival (rs ! i)) \<le> snd (range_ival (rs ! i))"
    using nonempty nth by (simp add: len)
  have c8: "\<forall>i j. i < j \<and> j < length rs \<longrightarrow> bytes_of (rs ! i) \<inter> bytes_of (rs ! j) = {}"
  proof (intro allI impI)
    fix i j assume a: "i < j \<and> j < length rs"
    then have "snd (R i) < fst (R j)" using apart len by simp
    moreover have "range_ival (rs ! i) = R i" "range_ival (rs ! j) = R j"
      using a len nth by simp_all
    ultimately show "bytes_of (rs ! i) \<inter> bytes_of (rs ! j) = {}"
      by (auto simp: bytes_of_ival)
  qed
  have "set rs = (\<lambda>i. rs ! i) ` {..<length rs}"
    by (simp add: set_conv_nth image_def Bex_def conj_commute eq_commute)
  then have "(\<Union>r\<in>set rs. bytes_of r) = (\<Union>i<length rs. bytes_of (rs ! i))"
    by simp
  also have "\<dots> = (\<Union>i<nat n. {fst (R i) .. snd (R i)})"
    using nth by (simp add: len bytes_of_ival)
  finally have c9: "(\<Union>r\<in>set rs. bytes_of r) = {0 .. t - 1}"
    using cover by simp
  show ?thesis
    using c1 len c3 c4 c5 c6 c7 c8 c9 unfolding n_def [symmetric] t_def [symmetric]
    by (intro exI [of _ rs]) simp
qed

lemma calculateRanges_fresh_100_4:
  "calculateRanges ((NewDownloader ''http://host/file'' ''out.bin'' 4)\<lparr>size64 := 100\<rparr>)
   = Inr ((NewDownloader ''http://host/file'' ''out.bin'' 4)
            \<lparr>size64 := 100, ranges := [(0, 24), (25, 49), (50, 74), (75, 99)]\<rparr>)"
  by (simp add: calculateRanges_planned planned_def range_at_def NewDownloader_def
      signed_divide_int_def upto.simps)

lemma calculateRanges_fresh_5_10:
  "calculateRanges ((NewDownloader ''http://host/file'' ''out.bin'' 10)\<lparr>size64 := 5\<rparr>)
   = Inr ((NewDownloader ''http://host/file'' ''out.bin'' 10)
            \<lparr>size64 := 5, ranges := [(0, - 1), (0, - 1), (0, - 1), (0, - 1), (0, - 1),
                                      (0, - 1), (0, - 1), (0, - 1), (0, - 1), (0, 4)]\<rparr>)"
  by (simp add: calculateRanges_planned planned_def range_at_def NewDownloader_def
      signed_divide_int_def upto.simps)

text \<open>
  The scenario of the specification: a size of 100 and a concurrency of 4 give the ranges
  \<open>[0,24]\<close>, \<open>[25,49]\<close>, \<open>[50,74]\<close>, \<open>[75,99]\<close>.
\<close>

theorem calculateRanges_partition_witness:
  "(0 :: go_int) <s 4 \<and> (4 :: go_int) \<le>s (100 :: int64)
   \<and> (\<exists>rs. calculateRanges ((NewDownloader ''http://host/file'' ''out.bin'' 4)\<lparr>size64 := 100\<rparr>)
            = Inr ((NewDownloader ''http://host/file'' ''out.bin'' 4)\<lparr>size64 := 100, ranges := rs\<rparr>)
          \<and> map range_ival rs = [(0, 24), (25, 49), (50, 74), (75, 99)]
          \<and> (\<Union>r\<in>set rs. bytes_of r) = {0 .. 99})"
proof -
  let ?d = "(NewDownloader ''http://host/file'' ''out.bin'' 4)\<lparr>size64 := 100\<rparr>"
  have h1: "0 <s concurrency ?d" by (simp add: NewDownloader_def word_sless_alt)
  have h2: "concurrency ?d \<le>s size64 ?d" by (simp add: NewDownloader_def word_sle_eq)
  from calculateRanges_partition [OF h1 h2]
  obtain rs where rs: "calculateRanges ?d = Inr (?d\<lparr>ranges := ranges ?d @ rs\<rparr>)"
    and cov: "(\<Union>r\<in>set rs. bytes_of r) = {0 .. sint (size64 ?d) - 1}"
    by blast
  from rs have "rs = [(0, 24), (25, 49), (50, 74), (75, 99)]"
    by (simp add: calculateRanges_fresh_100_4) (simp add: NewDownloader_def)
  then show ?thesis
    using rs cov by (simp add: NewDownloader_def range_ival_def word_sless_alt)
qed

text \<open>
  Claim C2, as amended. For a size that is not negative and a positive concurrency: when
  the concurrency is not larger than the size, every range has its end at or after its
  start; when the size is smaller than the concurrency, every range before the last is
  \<open>[0, -1]\<close>, with its end before its start, and the last range is \<open>[0, size - 1]\<close>.
\<close>

theorem calculateRanges_degenerate:
  assumes pos: "0 <s concurrency d" and nonneg: "0 \<le>s size64 d"
  shows "\<exists>rs. calculateRanges d = Inr (d\<lparr>ranges := ranges d @ rs\<rparr>)
    \<and> length rs = nat (sint (concurrency d))
    \<and> (concurrency d \<le>s size64 d \<longrightarrow>
          (\<forall>i<length rs. fst (range_ival (rs ! i)) \<le> snd (range_ival (rs ! i))))
    \<and> (size64 d <s concurrency d \<longrightarrow>
          (\<forall>i. Suc i < length rs \<longrightarrow> range_ival (rs ! i) = (0, - 1))
          \<and> range_ival (last rs) = (0, sint (size64 d) - 1))"
proof -
  define n where "n = sint (concurrency d)"
  define t where "t = sint (size64 d)"
  define rs where "rs = planned d"
  have n0: "0 < n" using pos by (simp add: n_def word_sless_alt)
  have t0: "0 \<le> t" using nonneg by (simp add: t_def word_sle_eq)
  have nz: "concurrency d \<noteq> 0" using pos by auto
  have c1: "calculateRanges d = Inr (d\<lparr>ranges := ranges d @ rs\<rparr>)"
    using nz by (simp add: calculateRanges_planned rs_def)
  have len: "length rs = nat n" by (simp add: rs_def n_def length_planned)
  have nth: "range_ival (rs ! i) =
      (int i * (t div n), if int i = n - 1 then t - 1 else int i * (t div n) + t div n - 1)"
    if "i < nat n" for i
    using nth_planned [of d i] n0 t0 that by (simp add: rs_def n_def t_def)
  have big: "\<forall>i<length rs. fst (range_ival (rs ! i)) \<le> snd (range_ival (rs ! i))" if "n \<le> t"
  proof (intro allI impI)
    fix i assume "i < length rs"
    then have i: "i < nat n" by (simp add: len)
    from plan_cover_int(2) [OF n0 that] i nth [OF i]
    show "fst (range_ival (rs ! i)) \<le> snd (range_ival (rs ! i))" by simp
  qed
  have small: "(\<forall>i. Suc i < length rs \<longrightarrow> range_ival (rs ! i) = (0, - 1))
          \<and> range_ival (last rs) = (0, t - 1)" if "t < n"
  proof -
    have z: "t div n = 0" using t0 that by simp
    have ne: "rs \<noteq> []" using len n0 by auto
    have l: "last rs = rs ! (nat n - 1)" using ne len by (simp add: last_conv_nth)
    have "int (nat n - 1) = n - 1" using n0 by simp
    then have "range_ival (last rs) = (0, t - 1)"
      using nth [of "nat n - 1"] n0 by (simp add: l z)
    moreover have "range_ival (rs ! i) = (0, - 1)" if "Suc i < length rs" for i
    proof -
      from that have "i < nat n" "int i \<noteq> n - 1" using len by auto
      then show ?thesis using nth [of i] by (simp add: z)
    qed
    ultimately show ?thesis by blast
  qed
  show ?thesis
    using c1 len big small
    unfolding n_def [symmetric] t_def [symmetric] word_sle_eq word_sless_alt
    by (intro exI [of _ rs]) simp
qed

text \<open>
  Claim C2 as stated fails for a size of 5 and a concurrency of 10: the first nine ranges
  are \<open>[0, -1]\<close>, whose end lies before the start, and the last range \<open>[0, 4]\<close> is the one
  that is not degenerate.
\<close>

theorem calculateRanges_degenerate_counterexample:
  "(0 :: int64) \<le>s 5 \<and> (0 :: go_int) <s 10
   \<and> calculateRanges ((NewDownloader ''http://host/file'' ''out.bin'' 10)\<lparr>size64 := 5\<rparr>)
      = Inr ((NewDownloader ''http://host/file'' ''out.bin'' 10)
            \<lparr>size64 := 5, ranges := [(0, - 1), (0, - 1), (0, - 1), (0, - 1), (0, - 1),
                                      (0, - 1), (0, - 1), (0, - 1), (0, - 1), (0, 4)]\<rparr>)
   \<and> \<not> fst (range_ival (0, - 1)) \<le> snd (range_ival (0, - 1))
   \<and> fst (range_ival (0, 4)) \<le> snd (range_ival (0, 4))"
  by (simp add: calculateRanges_fresh_5_10 range_ival_def word_sless_alt word_sle_eq)

text \<open>Both cases of the amended claim, at sizes 5 and 100.\<close>

theorem calculateRanges_degenerate_witness:
  "((0 :: go_int) <s 10 \<and> (0 :: int64) \<le>s 5 \<and> (5 :: int64) <s (10 :: go_int)
     \<and> (\<exists>rs. calculateRanges ((NewDownloader ''http://host/file'' ''out.bin'' 10)\<lparr>size64 := 5\<rparr>)
            = Inr ((NewDownloader ''http://host/file'' ''out.bin'' 10)\<lparr>size64 := 5, ranges := rs\<rparr>)
          \<and> length rs = 10 \<and> range_ival (rs ! 0) = (0, - 1) \<and> range_ival (last rs) = (0, 4)))
   \<and> ((0 :: go_int) <s 4 \<and> (0 :: int64) \<le>s 100 \<and> (4 :: go_int) \<le>s (100 :: int64)
     \<and> (\<exists>rs. calculateRanges ((NewDownloader ''http://host/file'' ''out.bin'' 4)\<lparr>size64 := 100\<rparr>)
            = Inr ((NewDownloader ''http://host/file'' ''out.bin'' 4)\<lparr>size64 := 100, ranges := rs\<rparr>)
          \<and> length rs = 4 \<and> fst (range_ival (rs ! 3)) \<le> snd (range_ival (rs ! 3))))"
proof -
  let ?a = "(NewDownloader ''http://host/file'' ''out.bin'' 10)\<lparr>size64 := 5\<rparr>"
  let ?b = "(NewDownloader ''http://host/file'' ''out.bin'' 4)\<lparr>size64 := 100\<rparr>"
  have a1: "0 <s concurrency ?a" and a2: "0 \<le>s size64 ?a" and a3: "size64 ?a <s concurrency ?a"
    by (simp_all add: NewDownloader_def word_sless_alt word_sle_eq)
  have b1: "0 <s concurrency ?b" and b2: "0 \<le>s size64 ?b" and b3: "concurrency ?b \<le>s size64 ?b"
    by (simp_all add: NewDownloader_def word_sless_alt word_sle_eq)
  from calculateRanges_degenerate [OF a1 a2] a3
  obtain ra where ra: "calculateRanges ?a = Inr (?a\<lparr>ranges := ranges ?a @ ra\<rparr>)"
    and la: "length ra = nat (sint (concurrency ?a))"
    and fa: "\<forall>i. Suc i < length ra \<longrightarrow> range_ival (ra ! i) = (0, - 1)"
    and ea: "range_ival (last ra) = (0, sint (size64 ?a) - 1)"
    by blast
  from calculateRanges_degenerate [OF b1 b2] b3
  obtain rb where rb: "calculateRanges ?b = Inr (?b\<lparr>ranges := ranges ?b @ rb\<rparr>)"
    and lb: "length rb = nat (sint (concurrency ?b))"
    and fb: "\<forall>i<length rb. fst (range_ival (rb ! i)) \<le> snd (range_ival (rb ! i))"
    by blast
  have la': "length ra = 10" using la by (simp add: NewDownloader_def)
  have lb': "length rb = 4" using lb by (simp add: NewDownloader_def)
  have "range_ival (ra ! 0) = (0, - 1)" using fa la' by simp
  moreover have "fst (range_ival (rb ! 3)) \<le> snd (range_ival (rb ! 3))" using fb lb' by simp
  ultimately show ?thesis
    using ra rb la' lb' ea
    by (simp add: NewDownloader_def word_sless_alt word_sle_eq)
qed

text \<open>
  Claim C10. \<open>calculateRanges\<close> appends to the ranges that are already there: a second
  call on the downloader the first call left appends the same ranges again, so that the
  downloader holds the old ranges followed by two copies of the plan, twice the
  concurrency in number, instead of one plan.
\<close>

theorem calculateRanges_twice:
  assumes nz: "concurrency d \<noteq> 0"
  shows "\<exists>rs. length rs = nat (sint (concurrency d))
    \<and> calculateRanges d = Inr (d\<lparr>ranges := ranges d @ rs\<rparr>)
    \<and> calculateRanges (d\<lparr>ranges := ranges d @ rs\<rparr>) = Inr (d\<lparr>ranges := ranges d @ rs @ rs\<rparr>)
    \<and> length (ranges d @ rs @ rs) = length (ranges d) + 2 * nat (sint (concurrency d))"
  using nz by (intro exI [of _ "planned d"]) (simp add: calculateRanges_planned length_planned)

text \<open>Planning twice for a size of 100 and a concurrency of 4 leaves eight ranges.\<close>

theorem calculateRanges_twice_witness:
  "(4 :: go_int) \<noteq> 0
   \<and> calculateRanges ((NewDownloader ''http://host/file'' ''out.bin'' 4)\<lparr>size64 := 100\<rparr>)
      = Inr ((NewDownloader ''http://host/file'' ''out.bin'' 4)
            \<lparr>size64 := 100, ranges := [(0, 24), (25, 49), (50, 74), (75, 99)]\<rparr>)
   \<and> calculateRanges ((NewDownloader ''http://host/file'' ''out.bin'' 4)
            \<lparr>size64 := 100, ranges := [(0, 24), (25, 49), (50, 74), (75, 99)]\<rparr>)
      = Inr ((NewDownloader ''http://host/file'' ''out.bin'' 4)
            \<lparr>size64 := 100, ranges := [(0, 24), (25, 49), (50, 74), (75, 99),
                                        (0, 24), (25, 49), (50, 74), (75, 99)]\<rparr>)"
proof -
  let ?d = "(NewDownloader ''http://host/file'' ''out.bin'' 4)\<lparr>size64 := 100\<rparr>"
  have nz: "concurrency ?d \<noteq> 0" by (simp add: NewDownloader_def)
  from calculateRanges_twice [OF nz]
  obtain rs where one: "calculateRanges ?d = Inr (?d\<lparr>ranges := ranges ?d @ rs\<rparr>)"
    and two: "calculateRanges (?d\<lparr>ranges := ranges ?d @ rs\<rparr>) = Inr (?d\<lparr>ranges := ranges ?d @ rs @ rs\<rparr>)"
    by blast
  from one have "rs = [(0, 24), (25, 49), (50, 74), (75, 99)]"
    by (simp add: calculateRanges_fresh_100_4) (simp add: NewDownloader_def)
  with one two show ?thesis by (simp add: NewDownloader_def)
qed

subsection \<open>The planner does not guard its divisor\<close>

text \<open>
  Claim C9. \<open>calculateRanges\<close> divides by the concurrency without a guard: with a
  concurrency of 0 the division panics, and \<open>main\<close> lets this value through, since it
  only checks that the URL and the output name are not empty, so that a run with
  concurrency 0 whose probe succeeds ends in that panic. With a positive concurrency
  \<open>calculateRanges\<close> returns after appending exactly that many ranges.
\<close>

theorem calculateRanges_total:
  "(concurrency d = 0 \<longrightarrow> calculateRanges d = Inl DivideByZero)
   \<and> (0 <s concurrency d \<longrightarrow>
        (\<exists>rs. calculateRanges d = Inr (d\<lparr>ranges := ranges d @ rs\<rparr>)
           \<and> length rs = nat (sint (concurrency d))))
   \<and> (urlFlag \<noteq> [] \<and> outputFlag \<noteq> []
        \<and> fst (checkSupportRange net (NewDownloader urlFlag outputFlag 0)) = None
      \<longrightarrow> fst (main net urlFlag outputFlag 0 w) = Exit2 DivideByZero)"
proof (intro conjI impI)
  assume "concurrency d = 0"
  then show "calculateRanges d = Inl DivideByZero" by (rule calculateRanges_zero)
next
  assume "0 <s concurrency d"
  then have "concurrency d \<noteq> 0" by auto
  then show "\<exists>rs. calculateRanges d = Inr (d\<lparr>ranges := ranges d @ rs\<rparr>)
           \<and> length rs = nat (sint (concurrency d))"
    by (intro exI [of _ "planned d"]) (simp add: calculateRanges_planned length_planned)
next
  assume a: "urlFlag \<noteq> [] \<and> outputFlag \<noteq> []
        \<and> fst (checkSupportRange net (NewDownloader urlFlag outputFlag 0)) = None"
  obtain d1 where d1: "checkSupportRange net (NewDownloader urlFlag outputFlag 0) = (None, d1)"
    using a by (cases "checkSupportRange net (NewDownloader urlFlag outputFlag 0)") auto
  have "concurrency d1 = 0"
    using d1 by (auto simp: checkSupportRange_def NewDownloader_def split: sum.splits if_splits)
  then have "calculateRanges d1 = Inl DivideByZero" by (rule calculateRanges_zero)
  with a d1 show "fst (main net urlFlag outputFlag 0 w) = Exit2 DivideByZero"
    by (simp add: main_def Download_def)
qed

text \<open>
  Concurrency 0 and concurrency 4 for a size of 100, and \<open>main\<close> started with
  concurrency 0 against a server that supports ranges.
\<close>

theorem calculateRanges_total_witness:
  "calculateRanges ((NewDownloader ''http://host/file'' ''out.bin'' 0)\<lparr>size64 := 100\<rparr>) = Inl DivideByZero
   \<and> (\<exists>rs. calculateRanges ((NewDownloader ''http://host/file'' ''out.bin'' 4)\<lparr>size64 := 100\<rparr>)
          = Inr ((NewDownloader ''http://host/file'' ''out.bin'' 4)\<lparr>size64 := 100, ranges := rs\<rparr>)
        \<and> length rs = 4)
   \<and> fst (main (server (Inr (head_ok 100)) no_body) ''http://host/file'' ''out.bin'' 0
        \<lparr>fsys = disk Map.empty, logged = []\<rparr>) = Exit2 DivideByZero"
proof -
  let ?z = "(NewDownloader ''http://host/file'' ''out.bin'' 0)\<lparr>size64 := 100\<rparr>"
  let ?d = "(NewDownloader ''http://host/file'' ''out.bin'' 4)\<lparr>size64 := 100\<rparr>"
  let ?net = "server (Inr (head_ok 100)) no_body"
  have z: "concurrency ?z = 0" by (simp add: NewDownloader_def)
  have p: "0 <s concurrency ?d" by (simp add: NewDownloader_def word_sless_alt)
  have m: "''http://host/file'' \<noteq> [] \<and> ''out.bin'' \<noteq> []
      \<and> fst (checkSupportRange ?net (NewDownloader ''http://host/file'' ''out.bin'' 0)) = None"
    by (simp add: checkSupportRange_def server_def head_ok_def Header_Get_def StatusOK_def)
  from calculateRanges_total [of ?z] z have 1: "calculateRanges ?z = Inl DivideByZero" by blast
  from calculateRanges_total [of ?d] p
  obtain rs where "calculateRanges ?d = Inr (?d\<lparr>ranges := ranges ?d @ rs\<rparr>)"
    and "length rs = nat (sint (concurrency ?d))" by blast
  then have 2: "\<exists>rs. calculateRanges ?d = Inr (?d\<lparr>ranges := rs\<rparr>) \<and> length rs = 4"
    by (simp add: NewDownloader_def)
  from calculateRanges_total [of ?d "''http://host/file''" "''out.bin''" ?net "\<lparr>fsys = disk Map.empty, logged = []\<rparr>"] m
  have 3: "fst (main ?net ''http://host/file'' ''out.bin'' 0 \<lparr>fsys = disk Map.empty, logged = []\<rparr>) = Exit2 DivideByZero"
    by blast
  from 1 2 3 show ?thesis by simp
qed

section \<open>The capability probe\<close>

text \<open>
  Claim C3, as amended. The probe succeeds exactly when the HEAD request returns a
  response whose status is 200 and whose first \<open>Accept-Ranges\<close> value is \<open>bytes\<close>; it
  then records the \<open>ContentLength\<close> of the response as the size, whatever it is. When the
  request itself fails the probe returns that error, and for every other response it
  returns the error "server does not support range requests"; in both cases the
  downloader is unchanged.
\<close>

theorem checkSupportRange_outcome:
  "(fst (checkSupportRange net d) = None \<longleftrightarrow>
      (\<exists>resp. http_Head net (url d) = Inr resp \<and> StatusCode resp = 200
          \<and> Header_Get (Header resp) ''Accept-Ranges'' = ''bytes''))
   \<and> (\<forall>resp. http_Head net (url d) = Inr resp \<and> StatusCode resp = 200
          \<and> Header_Get (Header resp) ''Accept-Ranges'' = ''bytes''
        \<longrightarrow> checkSupportRange net d = (None, d\<lparr>size64 := ContentLength resp\<rparr>))
   \<and> (\<forall>err. http_Head net (url d) = Inl err \<longrightarrow> checkSupportRange net d = (Some err, d))
   \<and> (\<forall>resp. http_Head net (url d) = Inr resp
          \<and> \<not> (StatusCode resp = 200 \<and> Header_Get (Header resp) ''Accept-Ranges'' = ''bytes'')
        \<longrightarrow> checkSupportRange net d = (Some (Errorf ''server does not support range requests''), d))"
  by (cases "http_Head net (url d)") (auto simp: checkSupportRange_def StatusOK_def)

text \<open>
  Claim C3 as stated fails: a response with status 200 and \<open>Accept-Ranges: bytes\<close> that
  declares no length (\<open>ContentLength = -1\<close>) makes the probe succeed, with \<open>-1\<close> recorded
  as the size; a failed request is answered with the error of the request, not with the
  range error; and a response with the success status 206, \<open>Accept-Ranges: bytes\<close> and a
  declared length is rejected, since the status has to be 200.
\<close>

theorem checkSupportRange_outcome_counterexample:
  "checkSupportRange (server (Inr (head_ok (- 1))) no_body) (NewDownloader ''http://host/file'' ''out.bin'' 4)
     = (None, (NewDownloader ''http://host/file'' ''out.bin'' 4)\<lparr>size64 := - 1\<rparr>)
   \<and> ContentLength (head_ok (- 1)) = - 1
   \<and> checkSupportRange (server (Inl (TransportError ''no such host'')) no_body)
        (NewDownloader ''http://host/file'' ''out.bin'' 4)
     = (Some (TransportError ''no such host''), NewDownloader ''http://host/file'' ''out.bin'' 4)
   \<and> checkSupportRange (server (Inr (head_partial 100)) no_body)
        (NewDownloader ''http://host/file'' ''out.bin'' 4)
     = (Some (Errorf ''server does not support range requests''),
        NewDownloader ''http://host/file'' ''out.bin'' 4)"
  by (simp add: checkSupportRange_def StatusOK_def Header_Get_def server_def head_ok_def
      head_partial_def)

text \<open>
  The three outcomes of the probe at concrete responses.
\<close>

theorem checkSupportRange_outcome_witness:
  "checkSupportRange (server (Inr (head_ok 100)) no_body) (NewDownloader ''http://host/file'' ''out.bin'' 4)
     = (None, (NewDownloader ''http://host/file'' ''out.bin'' 4)\<lparr>size64 := 100\<rparr>)
   \<and> checkSupportRange (server (Inr (head_plain 100)) no_body) (NewDownloader ''http://host/file'' ''out.bin'' 4)
     = (Some (Errorf ''server does not support range requests''), NewDownloader ''http://host/file'' ''out.bin'' 4)
   \<and> checkSupportRange (server (Inl (TransportError ''no such host'')) no_body)
        (NewDownloader ''http://host/file'' ''out.bin'' 4)
     = (Some (TransportError ''no such host''), NewDownloader ''http://host/file'' ''out.bin'' 4)"
  using checkSupportRange_outcome [of "server (Inr (head_ok 100)) no_body" "NewDownloader ''http://host/file'' ''out.bin'' 4"]
    checkSupportRange_outcome [of "server (Inr (head_plain 100)) no_body" "NewDownloader ''http://host/file'' ''out.bin'' 4"]
    checkSupportRange_outcome [of "server (Inl (TransportError ''no such host'')) no_body" "NewDownloader ''http://host/file'' ''out.bin'' 4"]
  by (simp add: server_def head_ok_def head_plain_def Header_Get_def)

section \<open>Decimal names\<close>

declare digits.simps [simp del]

lemma digit_char_inj: "j < 10 \<Longrightarrow> k < 10 \<Longrightarrow> digit_char j = digit_char k \<Longrightarrow> j = k"
  by (simp add: digit_char_def char_of_eq_iff take_bit_eq_mod)

lemma digits_nonempty: "digits n \<noteq> []"
  by (subst digits.simps) simp

lemma length_digits_ge10: "10 \<le> n \<Longrightarrow> 2 \<le> length (digits n)"
  using digits_nonempty [of "n div 10"]
  by (subst digits.simps) (cases "digits (n div 10)"; simp)

lemma digits_inj: "digits m = digits n \<Longrightarrow> m = n"
proof (induction m arbitrary: n rule: digits.induct)
  case (1 m)
  show ?case
  proof (cases "m < 10")
    case True
    then have lm: "digits m = [digit_char m]" by (subst digits.simps) simp
    show ?thesis
    proof (cases "n < 10")
      case True
      then have "digits n = [digit_char n]" by (subst digits.simps) simp
      with lm "1.prems" \<open>m < 10\<close> True show ?thesis by (auto dest: digit_char_inj)
    next
      case False
      then have "2 \<le> length (digits n)" by (simp add: length_digits_ge10)
      with lm "1.prems" show ?thesis by simp
    qed
  next
    case False
    then have lm: "digits m = digits (m div 10) @ [digit_char (m mod 10)]"
      by (subst digits.simps) simp
    show ?thesis
    proof (cases "n < 10")
      case True
      then have "digits n = [digit_char n]" by (subst digits.simps) simp
      moreover have "2 \<le> length (digits m)" using False by (simp add: length_digits_ge10)
      ultimately show ?thesis using "1.prems" by simp
    next
      case nf: False
      then have ln: "digits n = digits (n div 10) @ [digit_char (n mod 10)]"
        by (subst digits.simps) simp
      from "1.prems" lm ln have a: "digits (m div 10) = digits (n div 10)"
        and b: "digit_char (m mod 10) = digit_char (n mod 10)" by simp_all
      from "1.IH" [OF False a] have "m div 10 = n div 10" .
      moreover from b have "m mod 10 = n mod 10" by (intro digit_char_inj) simp_all
      ultimately show ?thesis by (metis div_mult_mod_eq)
    qed
  qed
qed

lemma Itoa_int_inj: "Itoa (int j) = Itoa (int k) \<Longrightarrow> j = k"
  by (simp add: Itoa_def digits_inj)

lemma digit_char_simps:
  "digit_char 0 = CHR ''0''" "digit_char 1 = CHR ''1''" "digit_char 2 = CHR ''2''"
  "digit_char 3 = CHR ''3''" "digit_char 4 = CHR ''4''" "digit_char 5 = CHR ''5''"
  "digit_char 6 = CHR ''6''" "digit_char 7 = CHR ''7''" "digit_char 8 = CHR ''8''"
  "digit_char 9 = CHR ''9''" "digit_char (Suc 0) = CHR ''1''"
  by (simp_all add: digit_char_def char_of_def bit_Suc_0_iff)

lemmas Itoa_eval = Itoa_def digits.simps digit_char_simps

lemma sint_of_nat64: "int k < 2 ^ 63 \<Longrightarrow> sint (of_nat k :: 64 word) = int k"
  using sint_woi64 [of "int k"] by simp

lemma in_scratch_names: "Itoa (int j) \<in> set (scratch_names k) \<longleftrightarrow> j < k"
  by (auto simp: scratch_names_def dest: Itoa_int_inj)

lemma scratch_names_Suc: "scratch_names (Suc k) = scratch_names k @ [Itoa (int k)]"
  by (simp add: scratch_names_def)

lemma scratch_names_mono: "j \<le> k \<Longrightarrow> set (scratch_names j) \<subseteq> set (scratch_names k)"
  by (auto simp: scratch_names_def)

lemma names_from_0: "names_from 0 k = scratch_names k"
  by (simp add: names_from_def scratch_names_def)

lemma in_names_from: "Itoa (int j) \<in> set (names_from a k) \<longleftrightarrow> a \<le> j \<and> j < k"
  by (auto simp: names_from_def dest: Itoa_int_inj)

section \<open>The merge\<close>

text \<open>
  The output path and the scratch names leading to different files.
\<close>

lemma apart_Suc:
  "apart fs out (Suc k) \<longleftrightarrow> apart fs out k \<and> file_of fs (Itoa (int k)) \<noteq> file_of fs out
     \<and> file_of fs (Itoa (int k)) \<notin> file_of fs ` set (scratch_names k)"
  by (auto simp: apart_def scratch_names_Suc)

lemma apart_mono: "apart fs out n \<Longrightarrow> k \<le> n \<Longrightarrow> apart fs out k"
proof (induction n)
  case 0
  then show ?case by simp
next
  case (Suc n)
  show ?case
  proof (cases "k = Suc n")
    case True
    with Suc.prems show ?thesis by simp
  next
    case False
    with Suc.prems have "k \<le> n" by simp
    moreover from Suc.prems(1) have "apart fs out n" by (simp add: apart_Suc)
    ultimately show ?thesis by (rule Suc.IH [rotated])
  qed
qed

lemma apart_scratch: "apart fs out n \<Longrightarrow> distinct (map (file_of fs) (scratch_names n))"
  by (simp add: apart_def)

lemma apart_piece_out:
  assumes "apart fs out n" and "j < n"
  shows "file_of fs (Itoa (int j)) \<noteq> file_of fs out"
proof -
  have "Itoa (int j) \<in> set (scratch_names n)" using assms(2) by (simp add: in_scratch_names)
  then have "file_of fs (Itoa (int j)) \<in> file_of fs ` set (scratch_names n)" by (rule imageI)
  moreover have "file_of fs out \<notin> file_of fs ` set (scratch_names n)"
    using assms(1) by (simp add: apart_def)
  ultimately show ?thesis by metis
qed

lemma distinct_files_neq:
  assumes "distinct (map (file_of fs) (scratch_names n))" and "j < n" and "k < n" and "j \<noteq> k"
  shows "file_of fs (Itoa (int j)) \<noteq> file_of fs (Itoa (int k))"
proof -
  have "map (file_of fs) (scratch_names n) ! j = file_of fs (Itoa (int j))"
    "map (file_of fs) (scratch_names n) ! k = file_of fs (Itoa (int k))"
    using assms(2,3) by (simp_all add: scratch_names_def)
  moreover have "j < length (map (file_of fs) (scratch_names n))"
    "k < length (map (file_of fs) (scratch_names n))"
    using assms(2,3) by (simp_all add: scratch_names_def)
  ultimately show ?thesis
    using assms(1,4) nth_eq_iff_index_eq [of "map (file_of fs) (scratch_names n)" j k] by metis
qed

lemma in_file_of_scratch:
  "f \<in> file_of fs ` set (scratch_names n) \<longleftrightarrow> (\<exists>j<n. f = file_of fs (Itoa (int j)))"
  by (auto simp: scratch_names_def)

subsection \<open>Merging the pieces that are there\<close>

declare mergeFiles_loop.simps [simp del]

lemma mergeFiles_loop_exit:
  "\<not> i <s concurrency d \<Longrightarrow> mergeFiles_loop d i fs = (None, fs)"
  by (subst mergeFiles_loop.simps) simp

lemma mergeFiles_loop_open_fails:
  "i <s concurrency d \<Longrightarrow> os_Open fs (Itoa (sint i)) = Inl err \<Longrightarrow>
     mergeFiles_loop d i fs = (Some err, fs)"
  by (subst mergeFiles_loop.simps) simp

lemma io_Copy_whole:
  assumes "reads fs name bs"
    and "files fs (file_of fs dst) = Some acc"
    and "file_of fs name \<noteq> file_of fs dst"
    and "fits fs dst (length acc + length bs)"
  shows "io_Copy fs dst (File name) = (None, fs\<lparr>files := (files fs)(file_of fs dst \<mapsto> acc @ bs)\<rparr>)"
  using assms
  by (simp add: io_Copy_def reads_def copy_stream_def file_Write_def fits_def)

lemma mergeFiles_loop_step:
  assumes "i <s concurrency d"
    and "reads fs (Itoa (sint i)) bs"
    and "files fs (file_of fs (output_file d)) = Some acc"
    and "file_of fs (Itoa (sint i)) \<noteq> file_of fs (output_file d)"
    and "fits fs (output_file d) (length acc + length bs)"
  shows "mergeFiles_loop d i fs =
     mergeFiles_loop d (i + 1)
       (os_Remove (fs\<lparr>files := (files fs)(file_of fs (output_file d) \<mapsto> acc @ bs)\<rparr>) (Itoa (sint i)))"
proof -
  have op: "os_Open fs (Itoa (sint i)) = Inr (File (Itoa (sint i)))"
    using assms(2) by (simp add: reads_def)
  have cp: "io_Copy fs (output_file d) (File (Itoa (sint i)))
      = (None, fs\<lparr>files := (files fs)(file_of fs (output_file d) \<mapsto> acc @ bs)\<rparr>)"
    using assms by (intro io_Copy_whole) simp_all
  show ?thesis
    using assms(1) op cp by (subst mergeFiles_loop.simps) simp
qed

lemma merged_oracles [simp]:
  "file_of (merged fs out p k) = file_of fs"
  "no_create (merged fs out p k) = no_create fs"
  "no_open (merged fs out p k) = no_open fs"
  "no_remove (merged fs out p k) = no_remove fs"
  "read_fault (merged fs out p k) = read_fault fs"
  "write_limit (merged fs out p k) = write_limit fs"
  by (simp_all add: merged_def)

lemma files_merged:
  "files (merged fs out p k) f =
     (if f = file_of fs out then Some (concat (map p [0..<k]))
      else if f \<in> file_of fs ` set (scratch_names k) \<and> \<not> no_remove fs f then None else files fs f)"
  by (simp add: merged_def)

lemma reads_merged:
  assumes "file_of fs (Itoa (int k)) \<noteq> file_of fs out"
    and "file_of fs (Itoa (int k)) \<notin> file_of fs ` set (scratch_names k)"
  shows "reads (merged fs out p k) (Itoa (int k)) bs = reads fs (Itoa (int k)) bs"
  using assms
  by (simp add: reads_def os_Open_def files_merged cong: option.case_cong if_cong)

lemma os_Open_merged:
  assumes "file_of fs (Itoa (int k)) \<noteq> file_of fs out"
    and "file_of fs (Itoa (int k)) \<notin> file_of fs ` set (scratch_names k)"
  shows "os_Open (merged fs out p k) (Itoa (int k)) = os_Open fs (Itoa (int k))"
  using assms by (simp add: os_Open_def files_merged cong: option.case_cong if_cong)

lemma merged_step:
  assumes "file_of fs (Itoa (int k)) \<noteq> file_of fs out"
  shows "os_Remove ((merged fs out p k)\<lparr>files := (files (merged fs out p k))
            (file_of fs out \<mapsto> concat (map p [0..<k]) @ p k)\<rparr>) (Itoa (int k))
         = merged fs out p (Suc k)"
proof (cases "no_remove fs (file_of fs (Itoa (int k)))")
  case True
  with assms show ?thesis
    by (auto simp: os_Remove_def merged_def scratch_names_Suc fun_eq_iff
        intro!: arg_cong [where f = "\<lambda>f. fs\<lparr>files := f\<rparr>"])
next
  case False
  with assms show ?thesis
    by (auto simp: os_Remove_def merged_def scratch_names_Suc fun_eq_iff
        intro!: arg_cong [where f = "\<lambda>f. fs\<lparr>files := f\<rparr>"])
qed

lemma mergeFiles_loop_prefix:
  assumes le: "int k \<le> sint (concurrency d)"
    and free: "apart fs (output_file d) k"
    and good: "\<forall>j<k. reads fs (Itoa (int j)) (p j)"
    and room: "fits fs (output_file d) (length (concat (map p [0..<k])))"
  shows "mergeFiles_loop d 0 (merged fs (output_file d) p 0)
       = mergeFiles_loop d (of_nat k) (merged fs (output_file d) p k)"
  using assms
proof (induction k)
  case 0
  show ?case by simp
next
  case (Suc k)
  let ?out = "output_file d"
  have up: "sint (concurrency d) < 2 ^ 63"
    using sint_lt [of "concurrency d"] by simp
  have small: "int k < 2 ^ 63" using Suc.prems(1) up by simp
  have sk: "sint (of_nat k :: 64 word) = int k" by (rule sint_of_nat64 [OF small])
  have lt: "(of_nat k :: 64 word) <s concurrency d"
    using Suc.prems(1) by (simp add: word_sless_alt sk)
  from Suc.prems(2) have free': "apart fs ?out k"
    and ne: "file_of fs (Itoa (int k)) \<noteq> file_of fs ?out"
    and fresh: "file_of fs (Itoa (int k)) \<notin> file_of fs ` set (scratch_names k)"
    by (simp_all add: apart_Suc)
  have room': "fits fs ?out (length (concat (map p [0..<k])))"
    using Suc.prems(4) by (simp add: fits_def)
  have IH: "mergeFiles_loop d 0 (merged fs ?out p 0) = mergeFiles_loop d (of_nat k) (merged fs ?out p k)"
    using Suc.IH Suc.prems free' room' by simp
  have op: "reads (merged fs ?out p k) (Itoa (sint (of_nat k :: 64 word))) (p k)"
    using Suc.prems(3) by (simp add: sk reads_merged [OF ne fresh])
  have acc: "files (merged fs ?out p k) (file_of (merged fs ?out p k) ?out) = Some (concat (map p [0..<k]))"
    by (simp add: files_merged)
  have ne': "file_of (merged fs ?out p k) (Itoa (sint (of_nat k :: 64 word)))
      \<noteq> file_of (merged fs ?out p k) ?out"
    using ne by (simp add: sk)
  have rm: "fits (merged fs ?out p k) ?out (length (concat (map p [0..<k])) + length (p k))"
    using Suc.prems(4) by (simp add: fits_def)
  have "mergeFiles_loop d (of_nat k) (merged fs ?out p k)
      = mergeFiles_loop d (of_nat k + 1)
          (os_Remove ((merged fs ?out p k)\<lparr>files := (files (merged fs ?out p k))
            (file_of (merged fs ?out p k) ?out \<mapsto> concat (map p [0..<k]) @ p k)\<rparr>)
            (Itoa (sint (of_nat k :: 64 word))))"
    by (rule mergeFiles_loop_step [OF lt op acc ne' rm])
  also have "\<dots> = mergeFiles_loop d (of_nat (Suc k)) (merged fs ?out p (Suc k))"
    by (simp add: sk merged_step [OF ne] add.commute)
  finally show ?case using IH by simp
qed

lemma merged_0: "merged fs out p 0 = fs\<lparr>files := (files fs)(file_of fs out \<mapsto> [])\<rparr>"
  by (simp add: merged_def scratch_names_def fun_eq_iff)

lemmas os_eval = mergeFiles_def os_Create_def os_Open_def os_Remove_def io_Copy_def copy_stream_def
  file_Write_def disk_def word_sless_alt

text \<open>
  Claim C6, as amended. Let the output file be creatable, and let the output path and the
  scratch names \<open>0, \<dots>, concurrency - 1\<close> lead to different files; let the pieces
  \<open>0, \<dots>, i - 1\<close> open and read without error, with contents \<open>p 0, \<dots>, p (i - 1)\<close> that
  the output file has room for; and let \<open>i\<close> either be the concurrency or the first index
  whose piece cannot be opened, with error \<open>err\<close>. Then \<open>mergeFiles\<close> returns \<open>nil\<close> in
  the first case and \<open>err\<close> in the second, and leaves the file system in which the output
  file holds exactly \<open>p 0 @ \<dots> @ p (i - 1)\<close>; every piece among \<open>0, \<dots>, i - 1\<close> whose
  removal is not refused is removed, and a piece whose removal is refused is still there
  (the program calls \<open>os.Remove\<close> and discards its error); every other file, the later
  pieces included, is as it was.
\<close>

theorem mergeFiles_in_order:
  assumes creat: "\<not> no_create fs (file_of fs (output_file d))"
    and free: "apart fs (output_file d) (nat (sint (concurrency d)))"
    and le: "int i \<le> sint (concurrency d)"
    and good: "\<forall>j<i. reads fs (Itoa (int j)) (p j)"
    and room: "fits fs (output_file d) (length (concat (map p [0..<i])))"
    and stop: "int i < sint (concurrency d) \<longrightarrow> os_Open fs (Itoa (int i)) = Inl err"
  shows "mergeFiles d fs =
     (if int i < sint (concurrency d) then Some err else None, merged fs (output_file d) p i)"
proof -
  let ?out = "output_file d"
  let ?n = "sint (concurrency d)"
  have up: "?n < 2 ^ 63" using sint_lt [of "concurrency d"] by simp
  have si: "sint (of_nat i :: 64 word) = int i"
    using le up by (intro sint_of_nat64) simp
  have "i \<le> nat ?n" using le by simp
  from apart_mono [OF free this]
  have free_i: "apart fs ?out i" .
  have "mergeFiles d fs = mergeFiles_loop d 0 (merged fs ?out p 0)"
    using creat by (simp add: mergeFiles_def os_Create_def merged_0)
  also have "\<dots> = mergeFiles_loop d (of_nat i) (merged fs ?out p i)"
    by (rule mergeFiles_loop_prefix [OF le free_i good room])
  finally have start: "mergeFiles d fs = mergeFiles_loop d (of_nat i) (merged fs ?out p i)" .
  show ?thesis
  proof (cases "int i < ?n")
    case True
    then have lt: "(of_nat i :: 64 word) <s concurrency d"
      by (simp add: word_sless_alt si)
    have "Suc i \<le> nat ?n" using True by simp
    from apart_mono [OF free this]
    have ne: "file_of fs (Itoa (int i)) \<noteq> file_of fs ?out"
      and fresh: "file_of fs (Itoa (int i)) \<notin> file_of fs ` set (scratch_names i)"
      by (simp_all add: apart_Suc)
    have "os_Open (merged fs ?out p i) (Itoa (sint (of_nat i :: 64 word))) = Inl err"
      using stop True by (simp add: si os_Open_merged [OF ne fresh])
    from mergeFiles_loop_open_fails [OF lt this] start True show ?thesis by simp
  next
    case False
    then have "\<not> (of_nat i :: 64 word) <s concurrency d"
      by (simp add: word_sless_alt si)
    from mergeFiles_loop_exit [OF this] start False show ?thesis by simp
  qed
qed

text \<open>
  Claim C6 as stated fails where the merge ends for another reason than a piece that
  cannot be opened, and where a piece cannot be removed. When the output file cannot be
  created, \<open>mergeFiles\<close> returns that error and touches nothing. When the copy of a piece
  breaks (here the output file cannot grow beyond two bytes), \<open>mergeFiles\<close> returns the
  error of the copy: the piece was opened, only a part of it is in the output file, and the
  piece is still there. When the removal of a piece is refused, the merge goes on and
  returns \<open>nil\<close>: the piece was appended and is still there.
\<close>

theorem mergeFiles_in_order_counterexample:
  "mergeFiles (NewDownloader ''http://host/file'' ''out.bin'' 1)
      ((disk [''0'' \<mapsto> [1, 2, 3]])\<lparr>no_create := (\<lambda>p. p = ''out.bin'')\<rparr>)
     = (Some (PathError ''open'' ''out.bin''),
        (disk [''0'' \<mapsto> [1, 2, 3]])\<lparr>no_create := (\<lambda>p. p = ''out.bin'')\<rparr>)
   \<and> os_Open ((disk [''0'' \<mapsto> [1, 2, 3]])\<lparr>write_limit := (\<lambda>p. if p = ''out.bin'' then 2 else 1000000)\<rparr>) ''0''
     = Inr (File ''0'')
   \<and> mergeFiles (NewDownloader ''http://host/file'' ''out.bin'' 1)
      ((disk [''0'' \<mapsto> [1, 2, 3]])\<lparr>write_limit := (\<lambda>p. if p = ''out.bin'' then 2 else 1000000)\<rparr>)
     = (Some (PathError ''write'' ''out.bin''),
        (disk [''0'' \<mapsto> [1, 2, 3], ''out.bin'' \<mapsto> [1, 2]])
          \<lparr>write_limit := (\<lambda>p. if p = ''out.bin'' then 2 else 1000000)\<rparr>)
   \<and> mergeFiles (NewDownloader ''http://host/file'' ''out.bin'' 1)
      ((disk [''0'' \<mapsto> [1, 2, 3]])\<lparr>no_remove := (\<lambda>p. p = ''0'')\<rparr>)
     = (None, (disk [''0'' \<mapsto> [1, 2, 3], ''out.bin'' \<mapsto> [1, 2, 3]])\<lparr>no_remove := (\<lambda>p. p = ''0'')\<rparr>)"
  by (simp add: os_eval mergeFiles_loop.simps NewDownloader_def Itoa_eval)

text \<open>
  A merge of two pieces that stops at the missing third one, and a complete merge of two
  pieces, where the removal of piece 0 is refused and that of piece 1 is not.
\<close>

theorem mergeFiles_in_order_witness:
  "\<not> no_create ((disk [''0'' \<mapsto> [1, 2], ''1'' \<mapsto> [3]])\<lparr>no_remove := (\<lambda>p. p = ''0'')\<rparr>)
        (file_of ((disk [''0'' \<mapsto> [1, 2], ''1'' \<mapsto> [3]])\<lparr>no_remove := (\<lambda>p. p = ''0'')\<rparr>) ''out.bin'')
   \<and> apart ((disk [''0'' \<mapsto> [1, 2], ''1'' \<mapsto> [3]])\<lparr>no_remove := (\<lambda>p. p = ''0'')\<rparr>) ''out.bin'' 3
   \<and> reads ((disk [''0'' \<mapsto> [1, 2], ''1'' \<mapsto> [3]])\<lparr>no_remove := (\<lambda>p. p = ''0'')\<rparr>) (Itoa 0) (two_pieces 0)
   \<and> reads ((disk [''0'' \<mapsto> [1, 2], ''1'' \<mapsto> [3]])\<lparr>no_remove := (\<lambda>p. p = ''0'')\<rparr>) (Itoa 1) (two_pieces 1)
   \<and> os_Open ((disk [''0'' \<mapsto> [1, 2], ''1'' \<mapsto> [3]])\<lparr>no_remove := (\<lambda>p. p = ''0'')\<rparr>) (Itoa 2)
        = Inl (PathError ''open'' ''2'')
   \<and> mergeFiles (NewDownloader ''http://host/file'' ''out.bin'' 3)
        ((disk [''0'' \<mapsto> [1, 2], ''1'' \<mapsto> [3]])\<lparr>no_remove := (\<lambda>p. p = ''0'')\<rparr>)
      = (Some (PathError ''open'' ''2''),
         (disk [''0'' \<mapsto> [1, 2], ''out.bin'' \<mapsto> [1, 2, 3]])\<lparr>no_remove := (\<lambda>p. p = ''0'')\<rparr>)
   \<and> mergeFiles (NewDownloader ''http://host/file'' ''out.bin'' 2)
        ((disk [''0'' \<mapsto> [1, 2], ''1'' \<mapsto> [3]])\<lparr>no_remove := (\<lambda>p. p = ''0'')\<rparr>)
      = (None, (disk [''0'' \<mapsto> [1, 2], ''out.bin'' \<mapsto> [1, 2, 3]])\<lparr>no_remove := (\<lambda>p. p = ''0'')\<rparr>)"
proof -
  let ?fs = "(disk [''0'' \<mapsto> [1, 2], ''1'' \<mapsto> [3]])\<lparr>no_remove := (\<lambda>p. p = ''0'')\<rparr>"
  let ?d = "NewDownloader ''http://host/file'' ''out.bin'' 3"
  let ?e = "NewDownloader ''http://host/file'' ''out.bin'' 2"
  have names: "scratch_names 3 = [''0'', ''1'', ''2'']" "scratch_names 2 = [''0'', ''1'']"
    by code_simp+
  have fo: "file_of ?fs = (\<lambda>p. p)" by (simp add: disk_def)
  have h1: "\<not> no_create ?fs (file_of ?fs (output_file ?d))" by (simp add: disk_def NewDownloader_def)
  have h2: "apart ?fs (output_file ?d) (nat (sint (concurrency ?d)))"
    by (simp add: NewDownloader_def apart_def names fo)
  have h3: "int 2 \<le> sint (concurrency ?d)" by (simp add: NewDownloader_def)
  have r0: "reads ?fs (Itoa 0) (two_pieces 0)" and r1: "reads ?fs (Itoa 1) (two_pieces 1)"
    by (simp_all add: reads_def os_Open_def disk_def Itoa_eval two_pieces_def)
  have h4: "\<forall>j<2. reads ?fs (Itoa (int j)) (two_pieces j)"
    using r0 r1 by (simp add: less_Suc_eq eval_nat_numeral)
  have h5: "fits ?fs (output_file ?d) (length (concat (map two_pieces [0..<2])))"
    by (simp add: fits_def disk_def two_pieces_def upt_rec)
  have h6: "int 2 < sint (concurrency ?d) \<longrightarrow> os_Open ?fs (Itoa (int 2)) = Inl (PathError ''open'' ''2'')"
    by (simp add: os_Open_def disk_def Itoa_eval)
  have m: "merged ?fs ''out.bin'' two_pieces 2
      = (disk [''0'' \<mapsto> [1, 2], ''out.bin'' \<mapsto> [1, 2, 3]])\<lparr>no_remove := (\<lambda>p. p = ''0'')\<rparr>"
    by (auto simp: merged_def names disk_def two_pieces_def upt_rec fun_eq_iff)
  from mergeFiles_in_order [OF h1 h2 h3 h4 h5 h6]
  have a: "mergeFiles ?d ?fs = (Some (PathError ''open'' ''2''), merged ?fs ''out.bin'' two_pieces 2)"
    by (simp add: NewDownloader_def)
  have g1: "\<not> no_create ?fs (file_of ?fs (output_file ?e))" by (simp add: disk_def NewDownloader_def)
  have g2: "apart ?fs (output_file ?e) (nat (sint (concurrency ?e)))"
    by (simp add: NewDownloader_def apart_def names fo)
  have g3: "int 2 \<le> sint (concurrency ?e)" by (simp add: NewDownloader_def)
  have g5: "fits ?fs (output_file ?e) (length (concat (map two_pieces [0..<2])))"
    by (simp add: fits_def disk_def two_pieces_def upt_rec)
  have g6: "int 2 < sint (concurrency ?e) \<longrightarrow> os_Open ?fs (Itoa (int 2)) = Inl (PathError ''open'' ''2'')"
    by (simp add: NewDownloader_def)
  from mergeFiles_in_order [OF g1 g2 g3 h4 g5 g6]
  have b: "mergeFiles ?e ?fs = (None, merged ?fs ''out.bin'' two_pieces 2)"
    by (simp add: NewDownloader_def)
  have o2: "os_Open ?fs (Itoa 2) = Inl (PathError ''open'' ''2'')"
    using h6 by (simp add: NewDownloader_def)
  show ?thesis
    using h1 h2 r0 r1 o2 a b unfolding m by (simp add: NewDownloader_def)
qed

subsection \<open>A merge that fails\<close>

lemma filesys_files_same: "files fs = f \<Longrightarrow> fs\<lparr>files := f\<rparr> = fs"
  by auto

lemma os_Open_cases:
  assumes "os_Open fs name = Inr src"
  shows "src = File name \<and> (\<exists>bs. files fs (file_of fs name) = Some bs)"
  using assms by (auto simp: os_Open_def split: option.splits if_splits)

lemma io_Copy_other:
  assumes "files fs (file_of fs name) = Some bs" and "file_of fs name \<noteq> file_of fs dst"
  shows "\<exists>data rerr. io_Copy fs dst (File name) = copy_stream fs dst (data, rerr)
      \<and> ((data = bs \<and> rerr = None) \<or> (\<exists>q. data = take q bs \<and> rerr \<noteq> None))"
  using assms by (cases "read_fault fs (file_of fs name)") (auto simp: io_Copy_def)

lemma mergeFiles_loop_round:
  assumes lt: "i <s concurrency d"
    and acc: "files fs (file_of fs (output_file d)) = Some acc"
    and ne: "file_of fs (Itoa (sint i)) \<noteq> file_of fs (output_file d)"
  shows "(\<exists>e partial rest.
            (case files fs (file_of fs (Itoa (sint i))) of None \<Rightarrow> [] | Some bs \<Rightarrow> bs) = partial @ rest
          \<and> mergeFiles_loop d i fs
              = (Some e, fs\<lparr>files := (files fs)(file_of fs (output_file d) \<mapsto> acc @ partial)\<rparr>))
       \<or> (\<exists>bs. files fs (file_of fs (Itoa (sint i))) = Some bs
          \<and> mergeFiles_loop d i fs
              = mergeFiles_loop d (i + 1)
                  (os_Remove (fs\<lparr>files := (files fs)(file_of fs (output_file d) \<mapsto> acc @ bs)\<rparr>)
                     (Itoa (sint i))))"
proof (cases "os_Open fs (Itoa (sint i))")
  case (Inl e)
  let ?out = "file_of fs (output_file d)"
  have "fs\<lparr>files := (files fs)(?out \<mapsto> acc @ [])\<rparr> = fs"
    using acc by (intro filesys_files_same) (auto simp: fun_eq_iff)
  then have "mergeFiles_loop d i fs = (Some e, fs\<lparr>files := (files fs)(?out \<mapsto> acc @ [])\<rparr>)"
    using mergeFiles_loop_open_fails [OF lt Inl] by simp
  then show ?thesis
    by (intro disjI1 exI [of _ e] exI [of _ "[]"]
          exI [of _ "case files fs (file_of fs (Itoa (sint i))) of None \<Rightarrow> [] | Some bs \<Rightarrow> bs"]) simp
next
  case (Inr src)
  let ?out = "file_of fs (output_file d)"
  from os_Open_cases [OF Inr] obtain bs where src: "src = File (Itoa (sint i))"
    and bs: "files fs (file_of fs (Itoa (sint i))) = Some bs" by auto
  from io_Copy_other [of fs "Itoa (sint i)" bs "output_file d"] bs ne
  obtain data rerr where cp: "io_Copy fs (output_file d) (File (Itoa (sint i)))
        = copy_stream fs (output_file d) (data, rerr)"
    and data: "(data = bs \<and> rerr = None) \<or> (\<exists>q. data = take q bs \<and> rerr \<noteq> None)"
    by auto
  from data obtain rest0 where rest0: "bs = data @ rest0"
    by (metis append_Nil2 append_take_drop_id)
  show ?thesis
  proof (cases "file_Write fs (output_file d) data")
    case (Pair werr fs1)
    show ?thesis
    proof (cases werr)
      case (Some e)
      with Pair acc obtain q where fs1: "fs1 = fs\<lparr>files := (files fs)(?out \<mapsto> acc @ take q data)\<rparr>"
        by (auto simp: file_Write_def split: option.splits if_splits)
      have "mergeFiles_loop d i fs = (Some e, fs1)"
        using lt Inr src cp Pair Some by (subst mergeFiles_loop.simps) (simp add: copy_stream_def)
      moreover have "bs = take q data @ (drop q data @ rest0)"
        using rest0 by simp
      ultimately show ?thesis
        using bs fs1
        by (intro disjI1 exI [of _ e] exI [of _ "take q data"] exI [of _ "drop q data @ rest0"]) simp
    next
      case None
      with Pair acc have fs1: "fs1 = fs\<lparr>files := (files fs)(?out \<mapsto> acc @ data)\<rparr>"
        by (auto simp: file_Write_def split: option.splits if_splits)
      show ?thesis
      proof (cases rerr)
        case (Some e)
        have "mergeFiles_loop d i fs = (Some e, fs1)"
          using lt Inr src cp Pair None Some by (subst mergeFiles_loop.simps) (simp add: copy_stream_def)
        then show ?thesis
          using bs fs1 rest0 by (intro disjI1 exI [of _ e] exI [of _ data] exI [of _ rest0]) simp
      next
        case rn: None
        with data have db: "data = bs" by auto
        have "mergeFiles_loop d i fs = mergeFiles_loop d (i + 1) (os_Remove fs1 (Itoa (sint i)))"
          using lt Inr src cp Pair None rn by (subst mergeFiles_loop.simps) (simp add: copy_stream_def)
        then show ?thesis
          using bs fs1 db by (intro disjI2 exI [of _ bs]) simp
      qed
    qed
  qed
qed

lemma os_Remove_oracles [simp]:
  "file_of (os_Remove fs name) = file_of fs"
  "no_create (os_Remove fs name) = no_create fs"
  "no_open (os_Remove fs name) = no_open fs"
  "no_remove (os_Remove fs name) = no_remove fs"
  "read_fault (os_Remove fs name) = read_fault fs"
  "write_limit (os_Remove fs name) = write_limit fs"
  by (simp_all add: os_Remove_def)

lemma files_os_Remove:
  "files (os_Remove fs name) x =
     (if x = file_of fs name \<and> \<not> no_remove fs x then None else files fs x)"
  by (auto simp: os_Remove_def)

lemma apart_files [simp]: "apart (fs\<lparr>files := f\<rparr>) out n = apart fs out n"
  by (simp add: apart_def)

lemma apart_os_Remove [simp]: "apart (os_Remove fs name) out n = apart fs out n"
  by (simp add: apart_def)

lemma piece_frame:
  assumes "file_of fs' = file_of fs" and "files fs' (file_of fs (Itoa (int j))) = files fs (file_of fs (Itoa (int j)))"
  shows "piece fs' j = piece fs j"
  using assms by (simp add: piece_def)

lemma mergeFiles_loop_failure:
  assumes "mergeFiles_loop d (of_nat a) fs = (Some err, fs')"
    and "int a \<le> sint (concurrency d)"
    and "apart fs (output_file d) (nat (sint (concurrency d)))"
    and "files fs (file_of fs (output_file d)) = Some acc"
  shows "\<exists>k partial rest. a \<le> k \<and> int k < sint (concurrency d) \<and> piece fs k = partial @ rest
      \<and> fs' = fs\<lparr>files := (\<lambda>f.
              if f = file_of fs (output_file d)
              then Some (acc @ concat (map (piece fs) [a..<k]) @ partial)
              else if f \<in> file_of fs ` set (names_from a k) \<and> \<not> no_remove fs f then None
              else files fs f)\<rparr>"
  using assms
proof (induction "nat (sint (concurrency d)) - a" arbitrary: a fs acc)
  case 0
  let ?n = "sint (concurrency d)"
  have up: "?n < 2 ^ 63" using sint_lt [of "concurrency d"] by simp
  from 0 have "int a = ?n" by simp
  then have "sint (of_nat a :: 64 word) = ?n" using up by (simp add: sint_of_nat64)
  then have "\<not> (of_nat a :: 64 word) <s concurrency d" by (simp add: word_sless_alt)
  from mergeFiles_loop_exit [OF this] 0 show ?case by simp
next
  case (Suc m)
  let ?n = "sint (concurrency d)"
  let ?N = "nat ?n"
  let ?out = "file_of fs (output_file d)"
  have up: "?n < 2 ^ 63" using sint_lt [of "concurrency d"] by simp
  from Suc.hyps(2) have an: "int a < ?n" by simp
  then have aN: "a < ?N" by simp
  have sa: "sint (of_nat a :: 64 word) = int a" using an up by (simp add: sint_of_nat64)
  have lt: "(of_nat a :: 64 word) <s concurrency d" using an by (simp add: word_sless_alt sa)
  have ne: "file_of fs (Itoa (int a)) \<noteq> ?out"
    by (rule apart_piece_out [OF Suc.prems(3) aN])
  from mergeFiles_loop_round [OF lt Suc.prems(4)] ne
  consider
    (stop) e partial rest where "piece fs a = partial @ rest"
      "mergeFiles_loop d (of_nat a) fs = (Some e, fs\<lparr>files := (files fs)(?out \<mapsto> acc @ partial)\<rparr>)"
  | (go) bs where "files fs (file_of fs (Itoa (int a))) = Some bs"
      "mergeFiles_loop d (of_nat a) fs
         = mergeFiles_loop d (of_nat a + 1)
             (os_Remove (fs\<lparr>files := (files fs)(?out \<mapsto> acc @ bs)\<rparr>) (Itoa (int a)))"
    unfolding sa piece_def by blast
  then show ?case
  proof cases
    case stop
    with Suc.prems(1) have fs': "fs' = fs\<lparr>files := (files fs)(?out \<mapsto> acc @ partial)\<rparr>" by simp
    have "fs' = fs\<lparr>files := (\<lambda>f.
              if f = ?out then Some (acc @ concat (map (piece fs) [a..<a]) @ partial)
              else if f \<in> file_of fs ` set (names_from a a) \<and> \<not> no_remove fs f then None
              else files fs f)\<rparr>"
      unfolding fs' by (auto simp: names_from_def fun_eq_iff intro!: arg_cong [where f = "\<lambda>f. fs\<lparr>files := f\<rparr>"])
    with stop(1) an show ?thesis by blast
  next
    case go
    let ?fs2 = "os_Remove (fs\<lparr>files := (files fs)(?out \<mapsto> acc @ bs)\<rparr>) (Itoa (int a))"
    have run: "mergeFiles_loop d (of_nat (Suc a)) ?fs2 = (Some err, fs')"
      using go(2) Suc.prems(1) by (simp add: add.commute)
    have m: "m = ?N - Suc a" using Suc.hyps(2) by simp
    have le: "int (Suc a) \<le> ?n" using an by simp
    have free2: "apart ?fs2 (output_file d) ?N"
      using Suc.prems(3) by simp
    have acc2: "files ?fs2 (file_of ?fs2 (output_file d)) = Some (acc @ bs)"
      using ne by (simp add: files_os_Remove)
    from Suc.hyps(1) [OF m run le free2 acc2]
    obtain k partial rest where k: "Suc a \<le> k" "int k < ?n" "piece ?fs2 k = partial @ rest"
      and fs0: "fs' = ?fs2\<lparr>files := (\<lambda>f.
              if f = file_of ?fs2 (output_file d)
              then Some ((acc @ bs) @ concat (map (piece ?fs2) [Suc a..<k]) @ partial)
              else if f \<in> file_of ?fs2 ` set (names_from (Suc a) k) \<and> \<not> no_remove ?fs2 f then None
              else files ?fs2 f)\<rparr>"
      by blast
    have fs': "fs' = ?fs2\<lparr>files := (\<lambda>f.
              if f = ?out then Some ((acc @ bs) @ concat (map (piece ?fs2) [Suc a..<k]) @ partial)
              else if f \<in> file_of fs ` set (names_from (Suc a) k) \<and> \<not> no_remove fs f then None
              else files ?fs2 f)\<rparr>"
      by (subst fs0) (simp cong: if_cong)
    have same: "piece ?fs2 j = piece fs j" if "Suc a \<le> j" "j \<le> k" for j
    proof -
      have jN: "j < ?N" using that k(2) by simp
      have "file_of fs (Itoa (int j)) \<noteq> file_of fs (Itoa (int a))"
        using distinct_files_neq [OF apart_scratch [OF Suc.prems(3)] jN aN] that by simp
      moreover have "file_of fs (Itoa (int j)) \<noteq> ?out"
        by (rule apart_piece_out [OF Suc.prems(3) jN])
      ultimately show ?thesis by (intro piece_frame) (simp_all add: files_os_Remove)
    qed
    have pa: "piece fs a = bs" using go(1) by (simp add: piece_def)
    have mp: "map (piece ?fs2) [Suc a..<k] = map (piece fs) [Suc a..<k]"
      using same by (intro map_cong) auto
    have "[a..<k] = a # [Suc a..<k]" using k(1) by (simp add: upt_conv_Cons)
    then have cat: "(acc @ bs) @ concat (map (piece ?fs2) [Suc a..<k]) @ partial
        = acc @ concat (map (piece fs) [a..<k]) @ partial"
      unfolding mp using pa by simp
    have nm: "file_of fs ` set (names_from a k)
        = insert (file_of fs (Itoa (int a))) (file_of fs ` set (names_from (Suc a) k))"
      using k(1) by (simp add: names_from_def upt_conv_Cons)
    have "fs' = fs\<lparr>files := (\<lambda>f.
              if f = ?out then Some (acc @ concat (map (piece fs) [a..<k]) @ partial)
              else if f \<in> file_of fs ` set (names_from a k) \<and> \<not> no_remove fs f then None
              else files fs f)\<rparr>"
      unfolding fs' cat nm
      by (auto simp: fun_eq_iff os_Remove_def intro!: arg_cong [where f = "\<lambda>f. fs\<lparr>files := f\<rparr>"])
    moreover have "piece fs k = partial @ rest" using k(3) same [of k] k(1) by simp
    moreover have "a \<le> k" using k(1) by simp
    ultimately show ?thesis using k(2) by blast
  qed
qed

text \<open>
  What a failed merge leaves. Let the output file be creatable, and let the output path
  and the scratch names \<open>0, \<dots>, concurrency - 1\<close> lead to different files. When
  \<open>mergeFiles\<close> returns an error, there is an index \<open>k\<close> below the concurrency, the round
  that failed, such that the output file exists and holds exactly the pieces
  \<open>0, \<dots>, k - 1\<close> in full followed by the part of piece \<open>k\<close> that was written before the
  failure; the pieces \<open>0, \<dots>, k - 1\<close> whose removal is not refused are removed and every
  other file is as it was. Nothing is rolled back.
\<close>

lemma mergeFiles_failure_state:
  assumes fail: "mergeFiles d fs = (Some err, fs')"
    and creat: "\<not> no_create fs (file_of fs (output_file d))"
    and free: "apart fs (output_file d) (nat (sint (concurrency d)))"
  shows "\<exists>k partial rest. int k < sint (concurrency d) \<and> piece fs k = partial @ rest
      \<and> fs' = fs\<lparr>files := (\<lambda>f.
              if f = file_of fs (output_file d) then Some (concat (map (piece fs) [0..<k]) @ partial)
              else if f \<in> file_of fs ` set (scratch_names k) \<and> \<not> no_remove fs f then None
              else files fs f)\<rparr>"
proof -
  let ?n = "sint (concurrency d)"
  let ?out = "file_of fs (output_file d)"
  let ?fsc = "fs\<lparr>files := (files fs)(?out \<mapsto> [])\<rparr>"
  have run: "mergeFiles_loop d 0 ?fsc = (Some err, fs')"
    using fail creat by (simp add: mergeFiles_def os_Create_def)
  have n0: "0 \<le> ?n"
  proof (rule ccontr)
    assume "\<not> 0 \<le> ?n"
    then have "\<not> (0 :: 64 word) <s concurrency d" by (simp add: word_sless_alt)
    from mergeFiles_loop_exit [OF this] run show False by simp
  qed
  have run': "mergeFiles_loop d (of_nat 0) ?fsc = (Some err, fs')" using run by simp
  have le: "int 0 \<le> ?n" using n0 by simp
  have free': "apart ?fsc (output_file d) (nat ?n)" using free by simp
  have acc: "files ?fsc (file_of ?fsc (output_file d)) = Some []" by simp
  from mergeFiles_loop_failure [OF run' le free' acc]
  obtain k partial rest where k: "int k < ?n" "piece ?fsc k = partial @ rest"
    and fs0: "fs' = ?fsc\<lparr>files := (\<lambda>f.
              if f = file_of ?fsc (output_file d)
              then Some ([] @ concat (map (piece ?fsc) [0..<k]) @ partial)
              else if f \<in> file_of ?fsc ` set (names_from 0 k) \<and> \<not> no_remove ?fsc f then None
              else files ?fsc f)\<rparr>"
    by blast
  from fs0 have fs': "fs' = ?fsc\<lparr>files := (\<lambda>f.
              if f = ?out then Some ([] @ concat (map (piece ?fsc) [0..<k]) @ partial)
              else if f \<in> file_of fs ` set (names_from 0 k) \<and> \<not> no_remove fs f then None
              else files ?fsc f)\<rparr>"
    by (simp cong: if_cong)
  have same: "piece ?fsc j = piece fs j" if "j \<le> k" for j
  proof -
    have "j < nat ?n" using that k(1) by simp
    from apart_piece_out [OF free this]
    show ?thesis by (intro piece_frame) simp_all
  qed
  have mp: "map (piece ?fsc) [0..<k] = map (piece fs) [0..<k]"
    using same by (intro map_cong) auto
  have "fs' = fs\<lparr>files := (\<lambda>f.
              if f = ?out then Some (concat (map (piece fs) [0..<k]) @ partial)
              else if f \<in> file_of fs ` set (scratch_names k) \<and> \<not> no_remove fs f then None
              else files fs f)\<rparr>"
    unfolding fs' mp names_from_0
    by (auto simp: fun_eq_iff intro!: arg_cong [where f = "\<lambda>f. fs\<lparr>files := f\<rparr>"])
  moreover have "piece fs k = partial @ rest" using k(2) same [of k] by simp
  ultimately show ?thesis using k(1) by blast
qed

subsection \<open>A merge that succeeds\<close>

lemma mergeFiles_loop_success:
  assumes "mergeFiles_loop d (of_nat a) fs = (None, fs')"
    and "int a \<le> sint (concurrency d)"
    and "apart fs (output_file d) (nat (sint (concurrency d)))"
    and "files fs (file_of fs (output_file d)) = Some acc"
  shows "fs' = fs\<lparr>files := (\<lambda>f.
              if f = file_of fs (output_file d)
              then Some (acc @ concat (map (piece fs) [a..<nat (sint (concurrency d))]))
              else if f \<in> file_of fs ` set (names_from a (nat (sint (concurrency d)))) \<and> \<not> no_remove fs f
                   then None
              else files fs f)\<rparr>"
  using assms
proof (induction "nat (sint (concurrency d)) - a" arbitrary: a fs acc)
  case 0
  let ?n = "sint (concurrency d)"
  have up: "?n < 2 ^ 63" using sint_lt [of "concurrency d"] by simp
  from 0 have an: "int a = ?n" by simp
  then have "sint (of_nat a :: 64 word) = ?n" using up by (simp add: sint_of_nat64)
  then have "\<not> (of_nat a :: 64 word) <s concurrency d" by (simp add: word_sless_alt)
  from mergeFiles_loop_exit [OF this] 0 have "fs' = fs" by simp
  moreover have "nat ?n = a" using an by simp
  ultimately show ?case
    using "0.prems"(4)
    by (auto simp: names_from_def fun_eq_iff intro!: filesys_files_same [symmetric])
next
  case (Suc m)
  let ?n = "sint (concurrency d)"
  let ?N = "nat ?n"
  let ?out = "file_of fs (output_file d)"
  have up: "?n < 2 ^ 63" using sint_lt [of "concurrency d"] by simp
  from Suc.hyps(2) have an: "int a < ?n" by simp
  then have aN: "a < ?N" by simp
  have sa: "sint (of_nat a :: 64 word) = int a" using an up by (simp add: sint_of_nat64)
  have lt: "(of_nat a :: 64 word) <s concurrency d" using an by (simp add: word_sless_alt sa)
  have ne: "file_of fs (Itoa (int a)) \<noteq> ?out"
    by (rule apart_piece_out [OF Suc.prems(3) aN])
  from mergeFiles_loop_round [OF lt Suc.prems(4)] ne Suc.prems(1)
  obtain bs where bs: "files fs (file_of fs (Itoa (int a))) = Some bs"
    and step: "mergeFiles_loop d (of_nat a) fs
         = mergeFiles_loop d (of_nat a + 1)
             (os_Remove (fs\<lparr>files := (files fs)(?out \<mapsto> acc @ bs)\<rparr>) (Itoa (int a)))"
    unfolding sa by auto
  let ?fs2 = "os_Remove (fs\<lparr>files := (files fs)(?out \<mapsto> acc @ bs)\<rparr>) (Itoa (int a))"
  have run: "mergeFiles_loop d (of_nat (Suc a)) ?fs2 = (None, fs')"
    using step Suc.prems(1) by (simp add: add.commute)
  have m: "m = ?N - Suc a" using Suc.hyps(2) by simp
  have le: "int (Suc a) \<le> ?n" using an by simp
  have free2: "apart ?fs2 (output_file d) ?N"
    using Suc.prems(3) by simp
  have acc2: "files ?fs2 (file_of ?fs2 (output_file d)) = Some (acc @ bs)"
    using ne by (simp add: files_os_Remove)
  from Suc.hyps(1) [OF m run le free2 acc2]
  have fs0: "fs' = ?fs2\<lparr>files := (\<lambda>f.
              if f = file_of ?fs2 (output_file d)
              then Some ((acc @ bs) @ concat (map (piece ?fs2) [Suc a..<?N]))
              else if f \<in> file_of ?fs2 ` set (names_from (Suc a) ?N) \<and> \<not> no_remove ?fs2 f then None
              else files ?fs2 f)\<rparr>" .
  have fs': "fs' = ?fs2\<lparr>files := (\<lambda>f.
              if f = ?out then Some ((acc @ bs) @ concat (map (piece ?fs2) [Suc a..<?N]))
              else if f \<in> file_of fs ` set (names_from (Suc a) ?N) \<and> \<not> no_remove fs f then None
              else files ?fs2 f)\<rparr>"
    by (subst fs0) (simp cong: if_cong)
  have same: "piece ?fs2 j = piece fs j" if "Suc a \<le> j" "j < ?N" for j
  proof -
    have "file_of fs (Itoa (int j)) \<noteq> file_of fs (Itoa (int a))"
      using distinct_files_neq [OF apart_scratch [OF Suc.prems(3)] that(2) aN] that by simp
    moreover have "file_of fs (Itoa (int j)) \<noteq> ?out"
      by (rule apart_piece_out [OF Suc.prems(3) that(2)])
    ultimately show ?thesis by (intro piece_frame) (simp_all add: files_os_Remove)
  qed
  have pa: "piece fs a = bs" using bs by (simp add: piece_def)
  have mp: "map (piece ?fs2) [Suc a..<?N] = map (piece fs) [Suc a..<?N]"
    using same by (intro map_cong) auto
  have "[a..<?N] = a # [Suc a..<?N]" using an by (simp add: upt_conv_Cons)
  then have cat: "(acc @ bs) @ concat (map (piece ?fs2) [Suc a..<?N])
      = acc @ concat (map (piece fs) [a..<?N])"
    unfolding mp using pa by simp
  have nm: "file_of fs ` set (names_from a ?N)
      = insert (file_of fs (Itoa (int a))) (file_of fs ` set (names_from (Suc a) ?N))"
    using an by (simp add: names_from_def upt_conv_Cons)
  show ?case
    unfolding fs' cat nm
    by (auto simp: fun_eq_iff os_Remove_def intro!: arg_cong [where f = "\<lambda>f. fs\<lparr>files := f\<rparr>"])
qed

lemma mergeFiles_success_state:
  assumes ok: "mergeFiles d fs = (None, fs')"
    and free: "apart fs (output_file d) (nat (sint (concurrency d)))"
    and pos: "0 \<le> sint (concurrency d)"
  shows "fs' = fs\<lparr>files := (\<lambda>f.
              if f = file_of fs (output_file d)
              then Some (concat (map (piece fs) [0..<nat (sint (concurrency d))]))
              else if f \<in> file_of fs ` set (scratch_names (nat (sint (concurrency d)))) \<and> \<not> no_remove fs f
                   then None
              else files fs f)\<rparr>"
proof -
  let ?n = "sint (concurrency d)"
  let ?N = "nat ?n"
  let ?out = "file_of fs (output_file d)"
  let ?fsc = "fs\<lparr>files := (files fs)(?out \<mapsto> [])\<rparr>"
  have run: "mergeFiles_loop d (of_nat 0) ?fsc = (None, fs')"
    using ok by (auto simp: mergeFiles_def os_Create_def split: if_splits)
  have le: "int 0 \<le> ?n" using pos by simp
  have free': "apart ?fsc (output_file d) ?N" using free by simp
  have acc: "files ?fsc (file_of ?fsc (output_file d)) = Some []" by simp
  from mergeFiles_loop_success [OF run le free' acc]
  have fs0: "fs' = ?fsc\<lparr>files := (\<lambda>f.
              if f = file_of ?fsc (output_file d)
              then Some ([] @ concat (map (piece ?fsc) [0..<?N]))
              else if f \<in> file_of ?fsc ` set (names_from 0 ?N) \<and> \<not> no_remove ?fsc f then None
              else files ?fsc f)\<rparr>" .
  have fs': "fs' = ?fsc\<lparr>files := (\<lambda>f.
              if f = ?out then Some ([] @ concat (map (piece ?fsc) [0..<?N]))
              else if f \<in> file_of fs ` set (names_from 0 ?N) \<and> \<not> no_remove fs f then None
              else files ?fsc f)\<rparr>"
    by (subst fs0) (simp cong: if_cong)
  have same: "piece ?fsc j = piece fs j" if "j < ?N" for j
    using apart_piece_out [OF free that] by (intro piece_frame) simp_all
  have mp: "map (piece ?fsc) [0..<?N] = map (piece fs) [0..<?N]"
    using same by (intro map_cong) auto
  show ?thesis
    unfolding fs' mp names_from_0
    by (auto simp: fun_eq_iff intro!: arg_cong [where f = "\<lambda>f. fs\<lparr>files := f\<rparr>"])
qed

section \<open>The fetch phase\<close>

text \<open>
  What a call of \<open>downloadChunk\<close> returns depends on the parameters of the file system
  and not on the files that are there, and the call touches no other file than the one
  that its file name leads to.
\<close>

lemma same_oracles_refl [simp]: "same_oracles a a"
  by (simp add: same_oracles_def)

lemma same_oracles_trans: "same_oracles a b \<Longrightarrow> same_oracles b c \<Longrightarrow> same_oracles a c"
  by (simp add: same_oracles_def)

lemma same_oracles_sym: "same_oracles a b \<Longrightarrow> same_oracles b a"
  by (simp add: same_oracles_def)

lemma same_oracles_file_of: "same_oracles a b \<Longrightarrow> file_of a p = file_of b p"
  by (simp add: same_oracles_def)

lemma downloadChunk_frame:
  assumes "downloadChunk net d c f r fs = (res, fs')"
  shows "same_oracles fs fs'" and "\<And>other. other \<noteq> file_of fs f \<Longrightarrow> files fs' other = files fs other"
  using assms
  by (auto simp: downloadChunk_def os_Create_def io_Copy_def copy_stream_def file_Write_def
      same_oracles_def split: option.splits sum.splits if_splits prod.splits)

lemma downloadChunk_result_oracles:
  assumes "same_oracles a b"
  shows "fst (downloadChunk net d c f r a) = fst (downloadChunk net d c f r b)"
  using assms same_oracles_file_of [OF assms, of f]
  by (auto simp: downloadChunk_def os_Create_def io_Copy_def copy_stream_def file_Write_def
      same_oracles_def split: option.splits sum.splits if_splits prod.splits)

lemma downloadChunk_local:
  assumes "same_oracles a b" and "files a (file_of a f) = files b (file_of a f)"
  shows "files (snd (downloadChunk net d c f r a)) (file_of a f)
       = files (snd (downloadChunk net d c f r b)) (file_of a f)"
  using assms same_oracles_file_of [OF assms(1), of f]
  by (auto simp: downloadChunk_def os_Create_def io_Copy_def copy_stream_def file_Write_def
      same_oracles_def split: option.splits sum.splits if_splits prod.splits)

lemma downloadChunk_success:
  assumes "downloadChunk net d c f r fs = (None, fs')"
  shows "\<exists>bs. http_Do net c (url d) (range_header r) = Inr (bs, None) \<and> files fs' (file_of fs f) = Some bs"
  using assms
  by (auto simp: downloadChunk_def os_Create_def io_Copy_def copy_stream_def file_Write_def
      split: option.splits sum.splits if_splits prod.splits)

lemma task_events_oracles:
  "same_oracles a b \<Longrightarrow> task_events net d a ir = task_events net d b ir"
  by (simp add: task_events_def downloadChunk_result_oracles [of a b])

subsection \<open>The invariant\<close>

lemma UN_task_update:
  assumes "i < n" and "i < length ps" and "g (ps ! i) i \<subseteq> g x i"
  shows "(\<Union>j<n. g (ps[i := x] ! j) j) = (\<Union>j<n. g (ps ! j) j) \<union> g x i"
proof (intro set_eqI iffI)
  fix e assume "e \<in> (\<Union>j<n. g (ps[i := x] ! j) j)"
  then obtain j where "j < n" "e \<in> g (ps[i := x] ! j) j" by auto
  then show "e \<in> (\<Union>j<n. g (ps ! j) j) \<union> g x i"
    using assms(2) by (cases "j = i") auto
next
  fix e assume "e \<in> (\<Union>j<n. g (ps ! j) j) \<union> g x i"
  then consider j where "j < n" "e \<in> g (ps ! j) j" | "e \<in> g x i" by auto
  then show "e \<in> (\<Union>j<n. g (ps[i := x] ! j) j)"
  proof cases
    case 1
    show ?thesis
    proof (cases "j = i")
      case True
      with 1 assms have "e \<in> g (ps[i := x] ! i) i" by auto
      with assms(1) show ?thesis by blast
    next
      case False
      with 1 have "e \<in> g (ps[i := x] ! j) j" by simp
      with 1(1) show ?thesis by blast
    qed
  next
    case 2
    with assms have "e \<in> g (ps[i := x] ! i) i" by simp
    with assms(1) show ?thesis by blast
  qed
qed

lemma length_step_at [simp]: "length (fst (step_at net d i s)) = length (fst s)"
  by (simp add: step_at_def split: prod.splits)

lemma fetch_inv_step:
  assumes inv: "fetch_inv net d w0 s"
  shows "fetch_inv net d w0 (step_at net d i s)"
proof (cases "i < length (ranges d) \<and> i < length (fst s)")
  case False
  then have "step_at net d i s = s" by (auto simp: step_at_def)
  with inv show ?thesis by simp
next
  case True
  let ?n = "length (ranges d)"
  let ?f = "Itoa (int i)"
  let ?r = "ranges d ! i"
  let ?k = "\<lambda>j. file_of (fsys w0) (Itoa (int j))"
  let ?dc = "\<lambda>j. downloadChunk net d j (Itoa (int j)) (ranges d ! j) (fsys w0)"
  let ?D = "distinct (map (file_of (fsys w0)) (scratch_names ?n))"
  let ?ev = "\<lambda>j. task_events net d (fsys w0) (j, ranges d ! j)"
  let ?g = "\<lambda>p j. set (emitted p (?ev j))"
  obtain ps w where s: "s = (ps, w)" by (cases s)
  from True s have i: "i < ?n" "i < length ps" by simp_all
  from inv s have len: "length ps = ?n"
    and orc: "same_oracles (fsys w0) (fsys w)"
    and res: "\<And>j err. j < ?n \<Longrightarrow> ps ! j = Fetched err \<Longrightarrow> err = fst (?dc j)"
    by (simp_all add: fetch_inv_def)
  from inv s have frame: "\<And>f. ?D \<Longrightarrow> f \<notin> file_of (fsys w0) ` set (scratch_names ?n) \<Longrightarrow>
        files (fsys w) f = files (fsys w0) f"
    and own: "\<And>j. ?D \<Longrightarrow> j < ?n \<Longrightarrow> files (fsys w) (?k j) =
           (if ps ! j = Ready \<or> ps ! j = Fetching then files (fsys w0) (?k j)
            else files (snd (?dc j)) (?k j))"
    by (simp_all add: fetch_inv_def)
  from inv s obtain lg where lg: "logged w = logged w0 @ lg"
    "set lg = (\<Union>j<?n. ?g (ps ! j) j)"
    by (auto simp: fetch_inv_def)
  show ?thesis
  proof (cases "ps ! i")
    case Ready
    let ?e = "LogDownloading ?f ?r"
    have st: "step_at net d i s = (ps[i := Fetching], log_line ?e w)"
      using i s Ready by (simp add: step_at_def step_task_def)
    have "?g (ps ! i) i \<subseteq> ?g Fetching i" using Ready by (simp add: emitted_def)
    from UN_task_update [of i ?n ps ?g Fetching, OF i this]
    have "(\<Union>j<?n. ?g (ps[i := Fetching] ! j) j) = set lg \<union> {?e}"
      using lg(2) by (simp add: emitted_def task_events_def)
    then have "set (lg @ [?e]) = (\<Union>j<?n. ?g (ps[i := Fetching] ! j) j)" by simp
    moreover have "logged (log_line ?e w) = logged w0 @ (lg @ [?e])"
      using lg(1) by (simp add: log_line_def)
    ultimately have lg': "\<exists>l. logged (log_line ?e w) = logged w0 @ l
        \<and> set l = (\<Union>j<?n. ?g (ps[i := Fetching] ! j) j)" by blast
    have own': "\<And>j. ?D \<Longrightarrow> j < ?n \<Longrightarrow> files (fsys w) (?k j) =
           (if ps[i := Fetching] ! j = Ready \<or> ps[i := Fetching] ! j = Fetching
            then files (fsys w0) (?k j) else files (snd (?dc j)) (?k j))"
      using own i Ready by (auto simp: nth_list_update)
    have res': "\<And>j err. j < ?n \<Longrightarrow> ps[i := Fetching] ! j = Fetched err \<Longrightarrow> err = fst (?dc j)"
      using res i by (auto simp: nth_list_update split: if_splits)
    show ?thesis
      unfolding st fetch_inv_def
      using len orc frame own' res' lg' by (simp add: log_line_def)
  next
    case Fetching
    obtain err fs' where dc: "downloadChunk net d i ?f ?r (fsys w) = (err, fs')"
      by (cases "downloadChunk net d i ?f ?r (fsys w)")
    have st: "step_at net d i s = (ps[i := Fetched err], w\<lparr>fsys := fs'\<rparr>)"
      using i s Fetching dc by (simp add: step_at_def step_task_def)
    have orc': "same_oracles (fsys w0) fs'"
      using same_oracles_trans [OF orc downloadChunk_frame(1) [OF dc]] .
    have fo: "file_of (fsys w) = file_of (fsys w0)" using orc by (simp add: same_oracles_def)
    have other: "\<And>f. f \<noteq> ?k i \<Longrightarrow> files fs' f = files (fsys w) f"
      using downloadChunk_frame(2) [OF dc] by (simp add: fo)
    have err: "err = fst (?dc i)"
      using downloadChunk_result_oracles [OF orc, of net d i ?f ?r] dc by simp
    have mine: "files fs' (?k i) = files (snd (?dc i)) (?k i)" if D: ?D
    proof -
      have "files (fsys w) (?k i) = files (fsys w0) (?k i)" using own [OF D i(1)] Fetching by simp
      then have "files (fsys w) (file_of (fsys w) ?f) = files (fsys w0) (file_of (fsys w) ?f)"
        by (simp add: fo)
      from downloadChunk_local [OF same_oracles_sym [OF orc] this, of net d i ?r] dc
      show ?thesis by (simp add: fo)
    qed
    have frame': "\<And>f. ?D \<Longrightarrow> f \<notin> file_of (fsys w0) ` set (scratch_names ?n) \<Longrightarrow>
        files fs' f = files (fsys w0) f"
    proof -
      fix f assume D: ?D and a: "f \<notin> file_of (fsys w0) ` set (scratch_names ?n)"
      have "?k i \<in> file_of (fsys w0) ` set (scratch_names ?n)"
        using i(1) by (auto simp: in_file_of_scratch)
      with a have "f \<noteq> ?k i" by auto
      with other frame [OF D a] show "files fs' f = files (fsys w0) f" by simp
    qed
    have own': "\<And>j. ?D \<Longrightarrow> j < ?n \<Longrightarrow> files fs' (?k j) =
           (if ps[i := Fetched err] ! j = Ready \<or> ps[i := Fetched err] ! j = Fetching
            then files (fsys w0) (?k j) else files (snd (?dc j)) (?k j))"
    proof -
      fix j assume D: ?D and j: "j < ?n"
      show "files fs' (?k j) =
           (if ps[i := Fetched err] ! j = Ready \<or> ps[i := Fetched err] ! j = Fetching
            then files (fsys w0) (?k j) else files (snd (?dc j)) (?k j))"
      proof (cases "j = i")
        case True
        with mine [OF D] i show ?thesis by simp
      next
        case False
        from distinct_files_neq [OF D j i(1) False] have "?k j \<noteq> ?k i" .
        with other own [OF D j] False show ?thesis by simp
      qed
    qed
    have res': "\<And>j e. j < ?n \<Longrightarrow> ps[i := Fetched err] ! j = Fetched e \<Longrightarrow> e = fst (?dc j)"
      using res i err by (auto simp: nth_list_update split: if_splits)
    have "?g (ps ! i) i \<subseteq> ?g (Fetched err) i" using Fetching by (simp add: emitted_def)
    from UN_task_update [of i ?n ps ?g "Fetched err", OF i this]
    have "(\<Union>j<?n. ?g (ps[i := Fetched err] ! j) j) = set lg \<union> ?g (ps ! i) i"
      using lg(2) Fetching by (simp add: emitted_def)
    also have "\<dots> = set lg" using lg(2) i(1) by auto
    finally have lg': "\<exists>l. logged w = logged w0 @ l
        \<and> set l = (\<Union>j<?n. ?g (ps[i := Fetched err] ! j) j)"
      using lg(1) by blast
    show ?thesis
      unfolding st fetch_inv_def
      using len orc' frame' own' res' lg' by simp
  next
    case (Fetched err)
    let ?e = "case err of Some e \<Rightarrow> LogErrorDownloading ?f e | None \<Rightarrow> LogFinished ?f"
    have st: "step_at net d i s = (ps[i := Ended], log_line ?e w)"
      using i s Fetched by (cases err) (simp_all add: step_at_def step_task_def)
    have err: "err = fst (?dc i)"
      using res [OF i(1) Fetched] .
    have ev: "?ev i = [LogDownloading ?f ?r, ?e]"
      by (simp add: task_events_def err cong: option.case_cong)
    have "?g (ps ! i) i \<subseteq> ?g Ended i" using Fetched by (auto simp: emitted_def dest: in_set_takeD)
    from UN_task_update [of i ?n ps ?g Ended, OF i this]
    have "(\<Union>j<?n. ?g (ps[i := Ended] ! j) j) = set lg \<union> ?g Ended i"
      using lg(2) by simp
    also have "\<dots> = set lg \<union> {LogDownloading ?f ?r, ?e}"
      by (simp add: emitted_def ev)
    also have "\<dots> = set lg \<union> {?e}"
    proof -
      have "LogDownloading ?f ?r \<in> ?g (ps ! i) i" using Fetched by (simp add: emitted_def ev)
      then have "LogDownloading ?f ?r \<in> set lg" using lg(2) i(1) by blast
      then show ?thesis by auto
    qed
    finally have "set (lg @ [?e]) = (\<Union>j<?n. ?g (ps[i := Ended] ! j) j)" by simp
    moreover have "logged (log_line ?e w) = logged w0 @ (lg @ [?e])"
      using lg(1) by (simp add: log_line_def)
    ultimately have lg': "\<exists>l. logged (log_line ?e w) = logged w0 @ l
        \<and> set l = (\<Union>j<?n. ?g (ps[i := Ended] ! j) j)" by blast
    have own': "\<And>j. ?D \<Longrightarrow> j < ?n \<Longrightarrow> files (fsys w) (?k j) =
           (if ps[i := Ended] ! j = Ready \<or> ps[i := Ended] ! j = Fetching
            then files (fsys w0) (?k j) else files (snd (?dc j)) (?k j))"
      using own i Fetched by (auto simp: nth_list_update)
    have res': "\<And>j e. j < ?n \<Longrightarrow> ps[i := Ended] ! j = Fetched e \<Longrightarrow> e = fst (?dc j)"
      using res i by (auto simp: nth_list_update split: if_splits)
    show ?thesis
      unfolding st fetch_inv_def
      using len orc frame own' res' lg' by (simp add: log_line_def)
  next
    case Ended
    have "step_at net d i s = (ps[i := Ended], w)"
      using i s Ended by (simp add: step_at_def step_task_def)
    moreover have "ps[i := Ended] = ps" using Ended by (simp add: list_update_same_conv i)
    ultimately show ?thesis using inv s by simp
  qed
qed

lemma fetch_inv_run:
  "fetch_inv net d w0 s \<Longrightarrow> fetch_inv net d w0 (run_steps net d order s)"
  by (induction order arbitrary: s) (simp_all add: fetch_inv_step)

lemma fetch_inv_start: "fetch_inv net d w (replicate (length (ranges d)) Ready, w)"
  by (simp add: fetch_inv_def emitted_def)

subsection \<open>All goroutines end\<close>

lemma run_steps_append:
  "run_steps net d (xs @ ys) s = run_steps net d ys (run_steps net d xs s)"
  by (induction xs arbitrary: s) simp_all

lemma length_run_steps [simp]: "length (fst (run_steps net d order s)) = length (fst s)"
  by (induction order arbitrary: s) simp_all

lemma step_at_Ended:
  assumes "fst s ! j = Ended" and "j < length (fst s)"
  shows "fst (step_at net d i s) ! j = Ended"
proof (cases "i < length (ranges d) \<and> i < length (fst s)")
  case False
  then have "step_at net d i s = s" by (auto simp: step_at_def)
  with assms show ?thesis by simp
next
  case True
  show ?thesis
  proof (cases "j = i")
    case True
    with assms \<open>i < length (ranges d) \<and> i < length (fst s)\<close> show ?thesis
      by (simp add: step_at_def step_task_def)
  next
    case False
    with assms True show ?thesis
      by (simp add: step_at_def split: prod.splits)
  qed
qed

lemma run_steps_Ended:
  "fst s ! j = Ended \<Longrightarrow> j < length (fst s) \<Longrightarrow> fst (run_steps net d order s) ! j = Ended"
  by (induction order arbitrary: s) (simp_all add: step_at_Ended)

lemma step_task_thrice:
  "fst (step_task net d ir (step_task net d ir (step_task net d ir (p, w)))) = Ended"
  by (cases p) (auto simp: step_task_def Let_def split: prod.splits option.splits)

lemma step_at_same:
  assumes "i < length (ranges d)" and "i < length (fst s)"
  shows "step_at net d i s =
     ((fst s)[i := fst (step_task net d (i, ranges d ! i) (fst s ! i, snd s))],
      snd (step_task net d (i, ranges d ! i) (fst s ! i, snd s)))"
  using assms by (simp add: step_at_def split: prod.splits)

lemma three_steps_Ended:
  assumes "i < length (ranges d)" and "i < length (fst s)"
  shows "fst (run_steps net d [i, i, i] s) ! i = Ended"
proof -
  let ?t = "step_task net d (i, ranges d ! i)"
  have 1: "step_at net d i s = ((fst s)[i := fst (?t (fst s ! i, snd s))], snd (?t (fst s ! i, snd s)))"
    by (rule step_at_same [OF assms])
  let ?s1 = "step_at net d i s"
  have l1: "i < length (fst ?s1)" using assms(2) by simp
  have p1: "(fst ?s1 ! i, snd ?s1) = ?t (fst s ! i, snd s)"
    using assms(2) by (simp add: 1)
  have 2: "step_at net d i ?s1 = ((fst ?s1)[i := fst (?t (?t (fst s ! i, snd s)))], snd (?t (?t (fst s ! i, snd s))))"
    using step_at_same [OF assms(1) l1] p1 by simp
  let ?s2 = "step_at net d i ?s1"
  have l2: "i < length (fst ?s2)" using assms(2) by simp
  have p2: "(fst ?s2 ! i, snd ?s2) = ?t (?t (fst s ! i, snd s))"
    using l1 by (simp add: 2)
  have 3: "step_at net d i ?s2 = ((fst ?s2)[i := fst (?t (?t (?t (fst s ! i, snd s))))], snd (?t (?t (?t (fst s ! i, snd s)))))"
    using step_at_same [OF assms(1) l2] p2 by simp
  have "fst (step_at net d i ?s2) ! i = fst (?t (?t (?t (fst s ! i, snd s))))"
    using l2 by (simp add: 3)
  then show ?thesis by (simp add: step_task_thrice)
qed

lemma run_triples_Ended:
  assumes "\<forall>i\<in>set xs. i < length (ranges d) \<and> i < length (fst s)"
  shows "\<forall>i\<in>set xs. fst (run_steps net d (concat (map (\<lambda>i. [i, i, i]) xs)) s) ! i = Ended"
  using assms
proof (induction xs arbitrary: s)
  case Nil
  show ?case by simp
next
  case (Cons a xs)
  let ?s1 = "run_steps net d [a, a, a] s"
  have run: "run_steps net d (concat (map (\<lambda>i. [i, i, i]) (a # xs))) s
      = run_steps net d (concat (map (\<lambda>i. [i, i, i]) xs)) ?s1"
    by simp
  have a: "a < length (ranges d)" "a < length (fst s)" using Cons.prems by simp_all
  have e1: "fst ?s1 ! a = Ended" by (rule three_steps_Ended [OF a])
  have len: "length (fst ?s1) = length (fst s)" by (rule length_run_steps)
  have "\<forall>i\<in>set xs. i < length (ranges d) \<and> i < length (fst ?s1)"
    using Cons.prems len by simp
  from Cons.IH [OF this]
  have rest: "\<forall>i\<in>set xs. fst (run_steps net d (concat (map (\<lambda>i. [i, i, i]) xs)) ?s1) ! i = Ended" .
  have "fst (run_steps net d (concat (map (\<lambda>i. [i, i, i]) xs)) ?s1) ! a = Ended"
    using run_steps_Ended [OF e1] a(2) len by simp
  with rest show ?case unfolding run by simp
qed

lemma fetch_phase_run:
  fixes net d w
  defines "s \<equiv> run_steps net d (sched net @ wait_all (length (ranges d)))
                 (replicate (length (ranges d)) Ready, w)"
  shows "fetch_phase net d w = snd s" and "fetch_inv net d w s"
    and "\<forall>i<length (ranges d). fst s ! i = Ended"
proof -
  let ?n = "length (ranges d)"
  let ?s0 = "(replicate ?n Ready, w)"
  let ?s1 = "run_steps net d (sched net) ?s0"
  show "fetch_phase net d w = snd s" by (simp add: fetch_phase_def s_def)
  show "fetch_inv net d w s"
    unfolding s_def by (rule fetch_inv_run [OF fetch_inv_start])
  have s: "s = run_steps net d (wait_all ?n) ?s1"
    by (simp add: s_def run_steps_append)
  have "\<forall>i\<in>set [0..<?n]. i < ?n \<and> i < length (fst ?s1)" by simp
  from run_triples_Ended [OF this]
  show "\<forall>i<?n. fst s ! i = Ended"
    unfolding s wait_all_def by simp
qed

subsection \<open>What the fetch phase leaves\<close>

lemma fetch_phase_oracles: "same_oracles (fsys w) (fsys (fetch_phase net d w))"
  using fetch_phase_run(2) [of net d w]
  by (simp add: fetch_phase_run(1) fetch_inv_def)

lemma fetch_phase_frame:
  assumes "distinct (map (file_of (fsys w)) (scratch_names (length (ranges d))))"
    and "f \<notin> file_of (fsys w) ` set (scratch_names (length (ranges d)))"
  shows "files (fsys (fetch_phase net d w)) f = files (fsys w) f"
  using fetch_phase_run(2) [of net d w] assms
  by (simp add: fetch_phase_run(1) fetch_inv_def)

lemma fetch_phase_file:
  assumes "distinct (map (file_of (fsys w)) (scratch_names (length (ranges d))))"
    and "i < length (ranges d)"
  shows "files (fsys (fetch_phase net d w)) (file_of (fsys w) (Itoa (int i)))
       = files (snd (downloadChunk net d i (Itoa (int i)) (ranges d ! i) (fsys w)))
           (file_of (fsys w) (Itoa (int i)))"
  using fetch_phase_run(2) [of net d w] fetch_phase_run(3) [of d net w] assms
  by (simp add: fetch_phase_run(1) fetch_inv_def)

lemma fetch_phase_logged:
  "\<exists>lg. logged (fetch_phase net d w) = logged w @ lg
     \<and> set lg = (\<Union>i<length (ranges d). set (task_events net d (fsys w) (i, ranges d ! i)))"
proof -
  let ?s = "run_steps net d (sched net @ wait_all (length (ranges d)))
              (replicate (length (ranges d)) Ready, w)"
  from fetch_phase_run(2) [of net d w]
  obtain lg where lg: "logged (snd ?s) = logged w @ lg"
    "set lg = (\<Union>i<length (ranges d).
               set (emitted (fst ?s ! i) (task_events net d (fsys w) (i, ranges d ! i))))"
    by (auto simp: fetch_inv_def)
  have "set lg = (\<Union>i<length (ranges d). set (task_events net d (fsys w) (i, ranges d ! i)))"
    unfolding lg(2) using fetch_phase_run(3) [of d net w] by (simp add: emitted_def)
  with lg(1) show ?thesis by (auto simp: fetch_phase_run(1))
qed

lemma step_task_fsys:
  assumes "fsys w = fsys w'"
  shows "fst (step_task net d ir (p, w)) = fst (step_task net d ir (p, w'))
     \<and> fsys (snd (step_task net d ir (p, w))) = fsys (snd (step_task net d ir (p, w')))"
  using assms
  by (cases p) (auto simp: step_task_def log_line_def Let_def split: prod.splits option.splits)

lemma step_at_fsys:
  assumes "fst s = fst s'" and "fsys (snd s) = fsys (snd s')"
  shows "fst (step_at net d i s) = fst (step_at net d i s')
     \<and> fsys (snd (step_at net d i s)) = fsys (snd (step_at net d i s'))"
proof (cases "i < length (ranges d) \<and> i < length (fst s)")
  case False
  with assms show ?thesis by (auto simp: step_at_def)
next
  case True
  from step_task_fsys [OF assms(2), of net d "(i, ranges d ! i)" "fst s ! i"] True assms(1)
  show ?thesis by (auto simp: step_at_def split: prod.splits)
qed

lemma run_steps_fsys:
  assumes "fst s = fst s'" and "fsys (snd s) = fsys (snd s')"
  shows "fst (run_steps net d order s) = fst (run_steps net d order s')
     \<and> fsys (snd (run_steps net d order s)) = fsys (snd (run_steps net d order s'))"
  using assms
proof (induction order arbitrary: s s')
  case Nil
  then show ?case by simp
next
  case (Cons i order)
  from step_at_fsys [OF Cons.prems, of net d i]
  have "fst (step_at net d i s) = fst (step_at net d i s')"
    and "fsys (snd (step_at net d i s)) = fsys (snd (step_at net d i s'))" by simp_all
  from Cons.IH [OF this] show ?case by simp
qed

lemma fetch_phase_fsys_logged:
  "fsys (fetch_phase net d (w\<lparr>logged := l\<rparr>)) = fsys (fetch_phase net d w)"
  using run_steps_fsys [of "(replicate (length (ranges d)) Ready, w\<lparr>logged := l\<rparr>)"
      "(replicate (length (ranges d)) Ready, w)" net d "sched net @ wait_all (length (ranges d))"]
  by (simp add: fetch_phase_def)

lemma filesys_eqI:
  "same_oracles a b \<Longrightarrow> files a = files b \<Longrightarrow> a = (b :: filesys)"
  by (simp add: same_oracles_def)

lemma downloadChunk_sched [simp]:
  "downloadChunk (net\<lparr>sched := s\<rparr>) d c f rg fs = downloadChunk net d c f rg fs"
  by (simp add: downloadChunk_def cong: option.case_cong sum.case_cong)

lemma fetch_phase_fsys:
  assumes D: "distinct (map (file_of (fsys w)) (scratch_names (length (ranges d))))"
  shows "fsys (fetch_phase (net\<lparr>sched := s\<rparr>) d w) = fsys (fetch_phase net d w)"
proof (rule filesys_eqI)
  let ?a = "fsys (fetch_phase (net\<lparr>sched := s\<rparr>) d w)"
  let ?b = "fsys (fetch_phase net d w)"
  have "same_oracles ?a (fsys w)" by (rule same_oracles_sym [OF fetch_phase_oracles])
  moreover have "same_oracles (fsys w) ?b" by (rule fetch_phase_oracles)
  ultimately show "same_oracles ?a ?b" by (rule same_oracles_trans)
  show "files ?a = files ?b"
  proof
    fix f
    show "files ?a f = files ?b f"
    proof (cases "f \<in> file_of (fsys w) ` set (scratch_names (length (ranges d)))")
      case False
      then show ?thesis using D by (simp add: fetch_phase_frame)
    next
      case True
      then obtain i where i: "i < length (ranges d)" "f = file_of (fsys w) (Itoa (int i))"
        by (auto simp: in_file_of_scratch)
      then show ?thesis using D by (simp add: fetch_phase_file)
    qed
  qed
qed

lemma distinct_disk_names [simp]: "distinct (map (file_of (disk m)) (scratch_names n))"
proof -
  have "inj_on (\<lambda>j. Itoa (int j)) (set [0..<n])"
    by (auto simp: inj_on_def dest: Itoa_int_inj)
  then have "distinct (scratch_names n)"
    by (simp add: scratch_names_def distinct_map)
  then show ?thesis by (simp add: disk_def)
qed

lemma fetch_phase_stored:
  assumes "distinct (map (file_of (fsys w)) (scratch_names (length (ranges d))))"
    and "i < length (ranges d)"
    and "fst (downloadChunk net d i (Itoa (int i)) (ranges d ! i) (fsys w)) = None"
  shows "\<exists>bs. http_Do net i (url d) (range_header (ranges d ! i)) = Inr (bs, None)
      \<and> files (fsys (fetch_phase net d w)) (file_of (fsys w) (Itoa (int i))) = Some bs"
proof -
  obtain fs' where dc: "downloadChunk net d i (Itoa (int i)) (ranges d ! i) (fsys w) = (None, fs')"
    using assms(3) by (cases "downloadChunk net d i (Itoa (int i)) (ranges d ! i) (fsys w)") auto
  from downloadChunk_success [OF dc]
  obtain bs where "http_Do net i (url d) (range_header (ranges d ! i)) = Inr (bs, None)"
    "files fs' (file_of (fsys w) (Itoa (int i))) = Some bs" by auto
  then show ?thesis using fetch_phase_file [OF assms(1,2), of net] dc by auto
qed

subsection \<open>Every interleaving is a run\<close>

lemma step_task_sched [simp]: "step_task (net\<lparr>sched := s\<rparr>) d ir st = step_task net d ir st"
  by (cases "fst st") (simp_all add: step_task_def Let_def)

lemma step_at_sched [simp]: "step_at (net\<lparr>sched := s\<rparr>) d i st = step_at net d i st"
  by (simp add: step_at_def)

lemma run_steps_sched [simp]: "run_steps (net\<lparr>sched := s\<rparr>) d order st = run_steps net d order st"
  by (induction order arbitrary: st) simp_all

lemma step_at_all_Ended:
  assumes "\<forall>j<length (ranges d). fst st ! j = Ended"
  shows "step_at net d i st = st"
proof (cases "i < length (ranges d) \<and> i < length (fst st)")
  case False
  then show ?thesis by (auto simp: step_at_def)
next
  case True
  with assms have e: "fst st ! i = Ended" by simp
  have "step_at net d i st = ((fst st)[i := Ended], snd st)"
    using True e by (simp add: step_at_def step_task_def)
  moreover have "(fst st)[i := Ended] = fst st"
    using e True by (simp add: list_update_same_conv)
  ultimately show ?thesis by simp
qed

lemma run_steps_all_Ended:
  "\<forall>j<length (ranges d). fst st ! j = Ended \<Longrightarrow> run_steps net d order st = st"
  by (induction order) (simp_all add: step_at_all_Ended)

text \<open>
  An interleaving of the goroutines is a list of indices, every entry standing for the
  next step of the goroutine it names. Every interleaving after which all goroutines have
  ended is the fetch phase of the environment that has it as its \<open>sched\<close>: the wait adds
  no step to it.
\<close>

lemma every_interleaving:
  assumes "\<forall>j<length (ranges d).
     fst (run_steps net d order (replicate (length (ranges d)) Ready, w)) ! j = Ended"
  shows "fetch_phase (net\<lparr>sched := order\<rparr>) d w
       = snd (run_steps net d order (replicate (length (ranges d)) Ready, w))"
  using run_steps_all_Ended [OF assms, of net "wait_all (length (ranges d))"]
  by (simp add: fetch_phase_def run_steps_append)

section \<open>The download\<close>

text \<open>
  Claim C4. When the probe fails, \<open>Download\<close> returns the error of the probe at once:
  the downloader is unchanged (no range was planned, and a concurrency of 0 does not
  panic), the file system is unchanged (no scratch file and no output file was created),
  and the only line logged is the first one.
\<close>

theorem Download_probe_failure:
  assumes "fst (checkSupportRange net d) = Some err"
  shows "Download net d w = (Inr (Some err), d, w\<lparr>logged := logged w @ [LogChecking]\<rparr>)"
proof -
  from assms have "checkSupportRange net d = (Some err, d)"
    by (auto simp: checkSupportRange_def split: sum.splits if_splits)
  then show ?thesis
    by (simp add: Download_def log_line_def)
qed

text \<open>
  A server without the \<open>Accept-Ranges\<close> header, probed by a downloader whose
  concurrency is 0.
\<close>

theorem Download_probe_failure_witness:
  "fst (checkSupportRange (server (Inr (head_plain 100)) no_body) (NewDownloader ''http://host/file'' ''out.bin'' 0))
     = Some (Errorf ''server does not support range requests'')
   \<and> Download (server (Inr (head_plain 100)) no_body) (NewDownloader ''http://host/file'' ''out.bin'' 0)
        \<lparr>fsys = disk Map.empty, logged = []\<rparr>
     = (Inr (Some (Errorf ''server does not support range requests'')),
        NewDownloader ''http://host/file'' ''out.bin'' 0,
        \<lparr>fsys = disk Map.empty, logged = [LogChecking]\<rparr>)"
proof -
  have h: "fst (checkSupportRange (server (Inr (head_plain 100)) no_body) (NewDownloader ''http://host/file'' ''out.bin'' 0))
     = Some (Errorf ''server does not support range requests'')"
    by (simp add: checkSupportRange_def server_def head_plain_def Header_Get_def)
  from Download_probe_failure [OF h, of "\<lparr>fsys = disk Map.empty, logged = []\<rparr>"] h
  show ?thesis by simp
qed

lemma Download_run:
  assumes probe: "checkSupportRange net d = (None, d1)" and plan: "calculateRanges d1 = Inr d2"
  shows "\<exists>lg. Download net d w =
       (Inr (fst (mergeFiles d2 (fsys (fetch_phase net d2 w)))), d2,
        \<lparr>fsys = snd (mergeFiles d2 (fsys (fetch_phase net d2 w))),
         logged = logged w @ [LogChecking, LogSize (size64 d1), LogRanges (ranges d2)] @ lg
           @ LogMerging # (case fst (mergeFiles d2 (fsys (fetch_phase net d2 w))) of
                              None \<Rightarrow> [LogCompleted] | Some e \<Rightarrow> [])\<rparr>)
     \<and> set lg = (\<Union>i<length (ranges d2). set (task_events net d2 (fsys w) (i, ranges d2 ! i)))"
proof -
  let ?w2 = "w\<lparr>logged := logged w @ [LogChecking, LogSize (size64 d1), LogRanges (ranges d2)]\<rparr>"
  let ?w3 = "fetch_phase net d2 ?w2"
  let ?fs3 = "fsys (fetch_phase net d2 w)"
  have f3: "fsys ?w3 = ?fs3" by (rule fetch_phase_fsys_logged)
  from fetch_phase_logged [of net d2 ?w2]
  obtain lg where l3: "logged ?w3 = logged w @ [LogChecking, LogSize (size64 d1), LogRanges (ranges d2)] @ lg"
    and lg: "set lg = (\<Union>i<length (ranges d2). set (task_events net d2 (fsys w) (i, ranges d2 ! i)))"
    by auto
  obtain res fs' where m: "mergeFiles d2 ?fs3 = (res, fs')" by (cases "mergeFiles d2 ?fs3")
  have "Download net d w =
      (case mergeFiles d2 (fsys ?w3) of
         (Some err, fs') \<Rightarrow> (Inr (Some err), d2, ?w3\<lparr>logged := logged ?w3 @ [LogMerging], fsys := fs'\<rparr>)
       | (None, fs') \<Rightarrow> (Inr None, d2, ?w3\<lparr>logged := logged ?w3 @ [LogMerging, LogCompleted], fsys := fs'\<rparr>))"
    using probe plan by (simp add: Download_def log_line_def Let_def split: prod.splits option.splits)
  then have "Download net d w =
       (Inr (fst (mergeFiles d2 ?fs3)), d2,
        \<lparr>fsys = snd (mergeFiles d2 ?fs3),
         logged = logged w @ [LogChecking, LogSize (size64 d1), LogRanges (ranges d2)] @ lg
           @ LogMerging # (case fst (mergeFiles d2 ?fs3) of
                              None \<Rightarrow> [LogCompleted] | Some e \<Rightarrow> [])\<rparr>)"
    unfolding f3 l3 m by (cases res) simp_all
  with lg show ?thesis by blast
qed

lemma probe_example:
  "checkSupportRange ((server (Inr (head_ok 4)) first_chunk_only)\<lparr>sched := s\<rparr>)
       (NewDownloader ''http://host/file'' ''out.bin'' 2)
     = (None, (NewDownloader ''http://host/file'' ''out.bin'' 2)\<lparr>size64 := 4\<rparr>)"
  by (simp add: checkSupportRange_def server_def head_ok_def Header_Get_def StatusOK_def)

lemma plan_example:
  "calculateRanges ((NewDownloader ''http://host/file'' ''out.bin'' 2)\<lparr>size64 := 4\<rparr>)
     = Inr ((NewDownloader ''http://host/file'' ''out.bin'' 2)\<lparr>size64 := 4, ranges := [(0, 1), (2, 3)]\<rparr>)"
  by (simp add: calculateRanges_planned planned_def range_at_def NewDownloader_def
      signed_divide_int_def upto.simps)

lemmas fetch_eval = fetch_phase_def step_at_def step_task_def wait_all_def downloadChunk_def
  range_header_def server_def Let_def log_line_def upt_rec

lemma Download_example:
  "Download ((server (Inr (head_ok 4)) first_chunk_only)\<lparr>sched := [Suc 0, 0, 0, 0, Suc 0]\<rparr>)
      (NewDownloader ''http://host/file'' ''out.bin'' 2)
      \<lparr>fsys = disk Map.empty, logged = []\<rparr>
   = (Inr (Some (PathError ''open'' ''1'')),
      (NewDownloader ''http://host/file'' ''out.bin'' 2)\<lparr>size64 := 4, ranges := [(0, 1), (2, 3)]\<rparr>,
      \<lparr>fsys = disk [''out.bin'' \<mapsto> [10, 11]],
       logged = [LogChecking, LogSize 4, LogRanges [(0, 1), (2, 3)],
                 LogDownloading ''1'' (2, 3), LogDownloading ''0'' (0, 1), LogFinished ''0'',
                 LogErrorDownloading ''1'' (TransportError ''connection reset''),
                 LogMerging]\<rparr>)"
  apply (simp add: Download_def probe_example plan_example log_line_def)
  apply (simp add: fetch_eval first_chunk_only_def os_eval mergeFiles_loop.simps NewDownloader_def Itoa_eval)
  done

lemma Download_example_seq:
  "Download (server (Inr (head_ok 4)) first_chunk_only)
      (NewDownloader ''http://host/file'' ''out.bin'' 2)
      \<lparr>fsys = disk Map.empty, logged = []\<rparr>
   = (Inr (Some (PathError ''open'' ''1'')),
      (NewDownloader ''http://host/file'' ''out.bin'' 2)\<lparr>size64 := 4, ranges := [(0, 1), (2, 3)]\<rparr>,
      \<lparr>fsys = disk [''out.bin'' \<mapsto> [10, 11]],
       logged = [LogChecking, LogSize 4, LogRanges [(0, 1), (2, 3)],
                 LogDownloading ''0'' (0, 1), LogFinished ''0'',
                 LogDownloading ''1'' (2, 3), LogErrorDownloading ''1'' (TransportError ''connection reset''),
                 LogMerging]\<rparr>)"
  using probe_example [of "[]"]
  apply (simp add: Download_def plan_example log_line_def server_def)
  apply (simp add: fetch_eval first_chunk_only_def os_eval mergeFiles_loop.simps NewDownloader_def Itoa_eval)
  done

text \<open>
  Claim C5. \<open>Download\<close> ends in one of three ways, whatever the remote end answers and in
  whatever order the goroutines take their steps (both are arbitrary in \<open>net\<close>). When the
  probe fails, it returns the error of the probe. When the probe succeeds and planning
  panics, it panics. Otherwise it returns exactly what \<open>mergeFiles\<close> returns on the file
  system that the fetch phase leaves, whatever the calls of \<open>downloadChunk\<close> returned. In
  this case the log holds the three opening lines, then the lines \<open>lg\<close> that the
  goroutines wrote, then the line that announces the merge, and the line of completion if
  the merge succeeded. The lines \<open>lg\<close> are, in some order, the two lines of every
  goroutine, and every goroutine whose \<open>downloadChunk\<close> fails has the line with its error
  among them (what \<open>downloadChunk\<close> returns does not depend on the files present, so it is
  the same on every file system with the same parameters).
\<close>

theorem Download_error_sources:
  "(\<forall>e d0. checkSupportRange net d = (Some e, d0) \<longrightarrow> fst (Download net d w) = Inr (Some e))
   \<and> (\<forall>d1 p. checkSupportRange net d = (None, d1) \<and> calculateRanges d1 = Inl p \<longrightarrow>
         fst (Download net d w) = Inl p)
   \<and> (\<forall>d1 d2. checkSupportRange net d = (None, d1) \<and> calculateRanges d1 = Inr d2 \<longrightarrow>
         fst (Download net d w) = Inr (fst (mergeFiles d2 (fsys (fetch_phase net d2 w))))
       \<and> (\<exists>lg. logged (snd (snd (Download net d w)))
                 = logged w @ [LogChecking, LogSize (size64 d1), LogRanges (ranges d2)] @ lg
                   @ LogMerging # (case fst (mergeFiles d2 (fsys (fetch_phase net d2 w))) of
                                     None \<Rightarrow> [LogCompleted] | Some e \<Rightarrow> [])
            \<and> set lg = (\<Union>i<length (ranges d2). set (task_events net d2 (fsys w) (i, ranges d2 ! i)))
            \<and> (\<forall>i<length (ranges d2). \<forall>fs e. same_oracles (fsys w) fs
                  \<and> fst (downloadChunk net d2 i (Itoa (int i)) (ranges d2 ! i) fs) = Some e
                \<longrightarrow> LogErrorDownloading (Itoa (int i)) e \<in> set lg)))"
proof (intro conjI allI impI)
  fix e d0
  assume "checkSupportRange net d = (Some e, d0)"
  then show "fst (Download net d w) = Inr (Some e)"
    by (simp add: Download_def)
next
  fix d1 p
  assume "checkSupportRange net d = (None, d1) \<and> calculateRanges d1 = Inl p"
  then show "fst (Download net d w) = Inl p"
    by (simp add: Download_def)
next
  fix d1 d2
  assume a: "checkSupportRange net d = (None, d1) \<and> calculateRanges d1 = Inr d2"
  from Download_run [of net d d1 d2 w] a
  show "fst (Download net d w) = Inr (fst (mergeFiles d2 (fsys (fetch_phase net d2 w))))"
    by auto
next
  fix d1 d2
  assume a: "checkSupportRange net d = (None, d1) \<and> calculateRanges d1 = Inr d2"
  let ?ev = "\<lambda>i. task_events net d2 (fsys w) (i, ranges d2 ! i)"
  from Download_run [of net d d1 d2 w] a
  obtain lg where run: "Download net d w =
       (Inr (fst (mergeFiles d2 (fsys (fetch_phase net d2 w)))), d2,
        \<lparr>fsys = snd (mergeFiles d2 (fsys (fetch_phase net d2 w))),
         logged = logged w @ [LogChecking, LogSize (size64 d1), LogRanges (ranges d2)] @ lg
           @ LogMerging # (case fst (mergeFiles d2 (fsys (fetch_phase net d2 w))) of
                              None \<Rightarrow> [LogCompleted] | Some e \<Rightarrow> [])\<rparr>)"
    and lg: "set lg = (\<Union>i<length (ranges d2). set (?ev i))"
    by blast
  have err: "LogErrorDownloading (Itoa (int i)) e \<in> set lg"
    if i: "i < length (ranges d2)" and so: "same_oracles (fsys w) fs"
      and f: "fst (downloadChunk net d2 i (Itoa (int i)) (ranges d2 ! i) fs) = Some e" for i fs e
  proof -
    have "fst (downloadChunk net d2 i (Itoa (int i)) (ranges d2 ! i) (fsys w)) = Some e"
      using downloadChunk_result_oracles [OF so, of net d2 i "Itoa (int i)" "ranges d2 ! i"] f by simp
    then have "LogErrorDownloading (Itoa (int i)) e \<in> set (?ev i)"
      by (simp add: task_events_def)
    with i show ?thesis unfolding lg by blast
  qed
  show "\<exists>lg. logged (snd (snd (Download net d w)))
                 = logged w @ [LogChecking, LogSize (size64 d1), LogRanges (ranges d2)] @ lg
                   @ LogMerging # (case fst (mergeFiles d2 (fsys (fetch_phase net d2 w))) of
                                     None \<Rightarrow> [LogCompleted] | Some e \<Rightarrow> [])
            \<and> set lg = (\<Union>i<length (ranges d2). set (?ev i))
            \<and> (\<forall>i<length (ranges d2). \<forall>fs e. same_oracles (fsys w) fs
                  \<and> fst (downloadChunk net d2 i (Itoa (int i)) (ranges d2 ! i) fs) = Some e
                \<longrightarrow> LogErrorDownloading (Itoa (int i)) e \<in> set lg)"
    using run lg err by (intro exI [of _ lg]) auto
qed

text \<open>
  Two ranges of which the second cannot be fetched. In the first run goroutine 1 logs
  that it starts, then goroutine 0 runs from its start to its end, then goroutine 1 goes
  on; in the second run the goroutines run one after the other. In both runs the error of
  the fetch is logged, in different places, and \<open>Download\<close> returns the error of the
  merge, which finds no piece 1. A failed probe is returned as it is.
\<close>

theorem Download_error_sources_witness:
  "checkSupportRange ((server (Inr (head_ok 4)) first_chunk_only)\<lparr>sched := [Suc 0, 0, 0, 0, Suc 0]\<rparr>)
       (NewDownloader ''http://host/file'' ''out.bin'' 2)
     = (None, (NewDownloader ''http://host/file'' ''out.bin'' 2)\<lparr>size64 := 4\<rparr>)
   \<and> calculateRanges ((NewDownloader ''http://host/file'' ''out.bin'' 2)\<lparr>size64 := 4\<rparr>)
     = Inr ((NewDownloader ''http://host/file'' ''out.bin'' 2)\<lparr>size64 := 4, ranges := [(0, 1), (2, 3)]\<rparr>)
   \<and> fst (downloadChunk ((server (Inr (head_ok 4)) first_chunk_only)\<lparr>sched := [Suc 0, 0, 0, 0, Suc 0]\<rparr>)
         ((NewDownloader ''http://host/file'' ''out.bin'' 2)\<lparr>size64 := 4, ranges := [(0, 1), (2, 3)]\<rparr>)
         1 (Itoa 1) (2, 3) (disk Map.empty))
     = Some (TransportError ''connection reset'')
   \<and> fst (Download ((server (Inr (head_ok 4)) first_chunk_only)\<lparr>sched := [Suc 0, 0, 0, 0, Suc 0]\<rparr>)
         (NewDownloader ''http://host/file'' ''out.bin'' 2) \<lparr>fsys = disk Map.empty, logged = []\<rparr>)
     = Inr (Some (PathError ''open'' ''1''))
   \<and> fst (mergeFiles ((NewDownloader ''http://host/file'' ''out.bin'' 2)\<lparr>size64 := 4, ranges := [(0, 1), (2, 3)]\<rparr>)
         (disk [''0'' \<mapsto> [10, 11]]))
     = Some (PathError ''open'' ''1'')
   \<and> logged (snd (snd (Download ((server (Inr (head_ok 4)) first_chunk_only)\<lparr>sched := [Suc 0, 0, 0, 0, Suc 0]\<rparr>)
         (NewDownloader ''http://host/file'' ''out.bin'' 2) \<lparr>fsys = disk Map.empty, logged = []\<rparr>)))
     = [LogChecking, LogSize 4, LogRanges [(0, 1), (2, 3)],
        LogDownloading ''1'' (2, 3), LogDownloading ''0'' (0, 1), LogFinished ''0'',
        LogErrorDownloading ''1'' (TransportError ''connection reset''),
        LogMerging]
   \<and> logged (snd (snd (Download (server (Inr (head_ok 4)) first_chunk_only)
         (NewDownloader ''http://host/file'' ''out.bin'' 2) \<lparr>fsys = disk Map.empty, logged = []\<rparr>)))
     = [LogChecking, LogSize 4, LogRanges [(0, 1), (2, 3)],
        LogDownloading ''0'' (0, 1), LogFinished ''0'',
        LogDownloading ''1'' (2, 3), LogErrorDownloading ''1'' (TransportError ''connection reset''),
        LogMerging]
   \<and> fst (Download (server (Inl (TransportError ''no such host'')) no_body)
         (NewDownloader ''http://host/file'' ''out.bin'' 2) \<lparr>fsys = disk Map.empty, logged = []\<rparr>)
     = Inr (Some (TransportError ''no such host''))"
proof -
  let ?net = "(server (Inr (head_ok 4)) first_chunk_only)\<lparr>sched := [Suc 0, 0, 0, 0, Suc 0]\<rparr>"
  let ?d = "NewDownloader ''http://host/file'' ''out.bin'' 2"
  let ?d2 = "?d\<lparr>size64 := 4, ranges := [(0, 1), (2, 3)]\<rparr>"
  let ?w = "\<lparr>fsys = disk Map.empty, logged = []\<rparr>"
  have chunk: "fst (downloadChunk ?net ?d2 1 (Itoa 1) (2, 3) (disk Map.empty))
      = Some (TransportError ''connection reset'')"
    by (simp add: downloadChunk_def server_def first_chunk_only_def range_header_def Itoa_eval)
  have merge: "fst (mergeFiles ?d2 (disk [''0'' \<mapsto> [10, 11]])) = Some (PathError ''open'' ''1'')"
    by (simp add: os_eval mergeFiles_loop.simps NewDownloader_def Itoa_eval)
  from Download_error_sources [of ?net ?d ?w] probe_example plan_example
  have "fst (Download ?net ?d ?w) = Inr (fst (mergeFiles ?d2 (fsys (fetch_phase ?net ?d2 ?w))))"
    by simp
  then have "fst (Download ?net ?d ?w) = Inr (Some (PathError ''open'' ''1''))"
    by (simp add: Download_example)
  moreover have "checkSupportRange (server (Inl (TransportError ''no such host'')) no_body) ?d
      = (Some (TransportError ''no such host''), ?d)"
    by (simp add: checkSupportRange_def server_def)
  with Download_error_sources [of "server (Inl (TransportError ''no such host'')) no_body" ?d ?w]
  have "fst (Download (server (Inl (TransportError ''no such host'')) no_body) ?d ?w)
      = Inr (Some (TransportError ''no such host''))"
    by blast
  ultimately show ?thesis
    using probe_example plan_example chunk merge by (simp add: Download_example Download_example_seq)
qed

subsection \<open>The order of the steps\<close>

lemma checkSupportRange_sched [simp]:
  "checkSupportRange (net\<lparr>sched := s\<rparr>) d = checkSupportRange net d"
  by (simp add: checkSupportRange_def)

text \<open>
  For a downloader that has no ranges yet, as \<open>NewDownloader\<close> makes it, and scratch
  names that lead to different files, the outcome of a download and the files it leaves
  are the same for every order in which the goroutines take their steps.
\<close>

lemma Download_any_order:
  assumes "distinct (map (file_of (fsys w)) (scratch_names (nat (sint (concurrency d)))))"
    and "ranges d = []"
  shows "fst (Download (net\<lparr>sched := s\<rparr>) d w) = fst (Download net d w)
   \<and> fsys (snd (snd (Download (net\<lparr>sched := s\<rparr>) d w))) = fsys (snd (snd (Download net d w)))"
proof (cases "checkSupportRange net d")
  case (Pair res d1)
  show ?thesis
  proof (cases res)
    case (Some e)
    with Pair show ?thesis by (simp add: Download_def log_line_def)
  next
    case None
    have d1: "concurrency d1 = concurrency d" "ranges d1 = []"
      using Pair None assms(2)
      by (auto simp: checkSupportRange_def split: sum.splits if_splits)
    show ?thesis
    proof (cases "calculateRanges d1")
      case (Inl p)
      with Pair None show ?thesis by (simp add: Download_def log_line_def)
    next
      case (Inr d2)
      have nz: "concurrency d1 \<noteq> 0"
        using Inr by (auto simp: calculateRanges_def int64_div_def split: if_splits)
      then have "d2 = d1\<lparr>ranges := ranges d1 @ planned d1\<rparr>"
        using Inr by (simp add: calculateRanges_planned)
      then have "length (ranges d2) = nat (sint (concurrency d))"
        using d1 by (simp add: length_planned)
      with assms(1) have "distinct (map (file_of (fsys w)) (scratch_names (length (ranges d2))))"
        by simp
      then have "fsys (fetch_phase (net\<lparr>sched := s\<rparr>) d2 w) = fsys (fetch_phase net d2 w)"
        by (rule fetch_phase_fsys)
      moreover have "checkSupportRange (net\<lparr>sched := s\<rparr>) d = (None, d1)"
        using Pair None by simp
      ultimately show ?thesis
        using Download_run [of net d d1 d2 w] Download_run [of "net\<lparr>sched := s\<rparr>" d d1 d2 w]
          Pair None Inr
        by auto
    qed
  qed
qed

subsection \<open>An output path that leads to no scratch piece\<close>

text \<open>
  What a download that returns \<open>nil\<close> leaves, when the output path and the scratch names
  lead to different files: the output file holds one piece for every index, in the order
  of the indices, where the piece of every index whose fetch succeeded is the body that was
  fetched for its range, and every scratch piece whose removal is not refused is gone.
\<close>

lemma Download_pieces_merged:
  assumes probe: "checkSupportRange net (NewDownloader u out c) = (None, d1)" and pos: "0 <s c"
    and plan: "calculateRanges d1 = Inr d2"
    and run: "Download net (NewDownloader u out c) w = (Inr None, d', w')"
    and free: "apart (fsys w) out (nat (sint c))"
  shows "length (ranges d2) = nat (sint c)"
    and "\<exists>pieces. length pieces = nat (sint c)
          \<and> files (fsys w') (file_of (fsys w) out) = Some (concat pieces)
          \<and> (\<forall>i<nat (sint c).
                fst (downloadChunk net d2 i (Itoa (int i)) (ranges d2 ! i) (fsys w)) = None
                \<longrightarrow> http_Do net i u (range_header (ranges d2 ! i)) = Inr (pieces ! i, None))"
    and "\<forall>i<nat (sint c). \<not> no_remove (fsys w) (file_of (fsys w) (Itoa (int i)))
          \<longrightarrow> files (fsys w') (file_of (fsys w) (Itoa (int i))) = None"
proof -
  let ?n = "nat (sint c)"
  let ?fs3 = "fsys (fetch_phase net d2 w)"
  have n0: "0 < sint c" using pos by (simp add: word_sless_alt)
  have d1: "concurrency d1 = c" "ranges d1 = []" "url d1 = u" "output_file d1 = out"
    using probe by (auto simp: checkSupportRange_def NewDownloader_def split: sum.splits if_splits)
  have nz: "concurrency d1 \<noteq> 0" using pos d1(1) by auto
  have "d2 = d1\<lparr>ranges := ranges d1 @ planned d1\<rparr>"
    using plan nz by (simp add: calculateRanges_planned)
  then have d2: "concurrency d2 = c" "url d2 = u" "output_file d2 = out" "length (ranges d2) = ?n"
    using d1 by (simp_all add: length_planned)
  show "length (ranges d2) = ?n" by (rule d2(4))
  have D: "distinct (map (file_of (fsys w)) (scratch_names (length (ranges d2))))"
    using apart_scratch [OF free] d2(4) by simp
  from Download_run [OF probe plan, of w] run
  have mres: "fst (mergeFiles d2 ?fs3) = None" and w': "fsys w' = snd (mergeFiles d2 ?fs3)"
    by auto
  then have ok: "mergeFiles d2 ?fs3 = (None, fsys w')" by (cases "mergeFiles d2 ?fs3") simp
  have so: "same_oracles (fsys w) ?fs3" by (rule fetch_phase_oracles)
  then have fo: "file_of ?fs3 = file_of (fsys w)" and nr: "no_remove ?fs3 = no_remove (fsys w)"
    by (simp_all add: same_oracles_def)
  have free3: "apart ?fs3 (output_file d2) (nat (sint (concurrency d2)))"
    using free d2 fo by (simp add: apart_def)
  have "0 \<le> sint (concurrency d2)" using n0 d2(1) by simp
  from mergeFiles_success_state [OF ok free3 this]
  have st: "fsys w' = ?fs3\<lparr>files := (\<lambda>f.
              if f = file_of (fsys w) out then Some (concat (map (piece ?fs3) [0..<?n]))
              else if f \<in> file_of (fsys w) ` set (scratch_names ?n) \<and> \<not> no_remove (fsys w) f then None
              else files ?fs3 f)\<rparr>"
    using d2 fo nr by (simp cong: if_cong)
  have "http_Do net i u (range_header (ranges d2 ! i)) = Inr (map (piece ?fs3) [0..<?n] ! i, None)"
    if i: "i < ?n"
      and ok: "fst (downloadChunk net d2 i (Itoa (int i)) (ranges d2 ! i) (fsys w)) = None" for i
  proof -
    from fetch_phase_stored [OF D _ ok] i d2
    obtain bs where bs: "http_Do net i u (range_header (ranges d2 ! i)) = Inr (bs, None)"
      "files ?fs3 (file_of (fsys w) (Itoa (int i))) = Some bs" by auto
    then have "piece ?fs3 i = bs" by (simp add: piece_def fo)
    then show ?thesis using bs(1) i by simp
  qed
  then show "\<exists>pieces. length pieces = ?n
          \<and> files (fsys w') (file_of (fsys w) out) = Some (concat pieces)
          \<and> (\<forall>i<?n.
                fst (downloadChunk net d2 i (Itoa (int i)) (ranges d2 ! i) (fsys w)) = None
                \<longrightarrow> http_Do net i u (range_header (ranges d2 ! i)) = Inr (pieces ! i, None))"
    by (intro exI [of _ "map (piece ?fs3) [0..<?n]"]) (simp add: st)
  show "\<forall>i<?n. \<not> no_remove (fsys w) (file_of (fsys w) (Itoa (int i)))
          \<longrightarrow> files (fsys w') (file_of (fsys w) (Itoa (int i))) = None"
  proof (intro allI impI)
    fix i assume i: "i < ?n" and r: "\<not> no_remove (fsys w) (file_of (fsys w) (Itoa (int i)))"
    have "file_of (fsys w) (Itoa (int i)) \<in> file_of (fsys w) ` set (scratch_names ?n)"
      using i by (auto simp: in_file_of_scratch)
    moreover from apart_piece_out [OF free i]
    have "file_of (fsys w) (Itoa (int i)) \<noteq> file_of (fsys w) out" .
    ultimately show "files (fsys w') (file_of (fsys w) (Itoa (int i))) = None"
      using r by (simp add: st)
  qed
qed

subsection \<open>An output path that leads to a scratch piece\<close>

lemma probe_example_three:
  "checkSupportRange (server (Inr (head_ok 6)) two_of_three) (NewDownloader ''http://host/file'' ''0'' 3)
     = (None, (NewDownloader ''http://host/file'' ''0'' 3)\<lparr>size64 := 6\<rparr>)"
  by (simp add: checkSupportRange_def server_def head_ok_def Header_Get_def StatusOK_def)

lemma plan_example_three:
  "calculateRanges ((NewDownloader ''http://host/file'' ''0'' 3)\<lparr>size64 := 6\<rparr>)
     = Inr ((NewDownloader ''http://host/file'' ''0'' 3)\<lparr>size64 := 6, ranges := [(0, 1), (2, 3), (4, 5)]\<rparr>)"
  by (simp add: calculateRanges_planned planned_def range_at_def NewDownloader_def
      signed_divide_int_def upto.simps)

text \<open>
  Claim C7 says that a merge that fails partway leaves the output file in place, with
  the bytes appended so far. The program breaks this when the output file is named like a
  scratch piece. A download into the file \<open>0\<close> with a concurrency of 3, whose third range
  cannot be fetched, stores the pieces 0 and 1; the merge creates the output file \<open>0\<close>,
  which truncates piece 0, removes the file \<open>0\<close> at the end of its first round, removes
  piece 1 after the second round and fails at the missing piece 2. \<open>Download\<close> returns
  the error of the merge, and no file is left: the output file has been removed.
\<close>

theorem Download_output_collision:
  "Download (server (Inr (head_ok 6)) two_of_three) (NewDownloader ''http://host/file'' ''0'' 3)
      \<lparr>fsys = disk Map.empty, logged = []\<rparr>
   = (Inr (Some (PathError ''open'' ''2'')),
      (NewDownloader ''http://host/file'' ''0'' 3)\<lparr>size64 := 6, ranges := [(0, 1), (2, 3), (4, 5)]\<rparr>,
      \<lparr>fsys = disk Map.empty,
       logged = [LogChecking, LogSize 6, LogRanges [(0, 1), (2, 3), (4, 5)],
                 LogDownloading ''0'' (0, 1), LogFinished ''0'',
                 LogDownloading ''1'' (2, 3), LogFinished ''1'',
                 LogDownloading ''2'' (4, 5), LogErrorDownloading ''2'' (TransportError ''connection reset''),
                 LogMerging]\<rparr>)
   \<and> files (disk Map.empty) ''0'' = None
   \<and> mergeFiles ((NewDownloader ''http://host/file'' ''0'' 3)\<lparr>size64 := 6, ranges := [(0, 1), (2, 3), (4, 5)]\<rparr>)
        (disk [''0'' \<mapsto> [10, 11], ''1'' \<mapsto> [12, 13]])
      = (Some (PathError ''open'' ''2''), disk Map.empty)"
  apply (simp add: Download_def probe_example_three plan_example_three log_line_def)
  apply (simp add: fetch_eval two_of_three_def os_eval mergeFiles_loop.simps NewDownloader_def Itoa_eval)
  done

lemma probe_example_collision:
  "checkSupportRange (server (Inr (head_ok 4)) both_chunks) (NewDownloader ''http://host/file'' ''0'' 2)
     = (None, (NewDownloader ''http://host/file'' ''0'' 2)\<lparr>size64 := 4\<rparr>)"
  by (simp add: checkSupportRange_def server_def head_ok_def Header_Get_def StatusOK_def)

lemma plan_example_collision:
  "calculateRanges ((NewDownloader ''http://host/file'' ''0'' 2)\<lparr>size64 := 4\<rparr>)
     = Inr ((NewDownloader ''http://host/file'' ''0'' 2)\<lparr>size64 := 4, ranges := [(0, 1), (2, 3)]\<rparr>)"
  by (simp add: calculateRanges_planned planned_def range_at_def NewDownloader_def
      signed_divide_int_def upto.simps)

lemma Download_example_collision:
  "Download (server (Inr (head_ok 4)) both_chunks) (NewDownloader ''http://host/file'' ''0'' 2)
      \<lparr>fsys = disk Map.empty, logged = []\<rparr>
   = (Inr None,
      (NewDownloader ''http://host/file'' ''0'' 2)\<lparr>size64 := 4, ranges := [(0, 1), (2, 3)]\<rparr>,
      \<lparr>fsys = disk Map.empty,
       logged = [LogChecking, LogSize 4, LogRanges [(0, 1), (2, 3)],
                 LogDownloading ''0'' (0, 1), LogFinished ''0'',
                 LogDownloading ''1'' (2, 3), LogFinished ''1'',
                 LogMerging, LogCompleted]\<rparr>)"
  apply (simp add: Download_def probe_example_collision plan_example_collision log_line_def)
  apply (simp add: fetch_eval both_chunks_def os_eval mergeFiles_loop.simps NewDownloader_def Itoa_eval)
  done

lemma fetch_example_collision:
  "fsys (fetch_phase (server (Inr (head_ok 4)) both_chunks)
          ((NewDownloader ''http://host/file'' ''0'' 2)\<lparr>size64 := 4, ranges := [(0, 1), (2, 3)]\<rparr>)
          \<lparr>fsys = disk Map.empty, logged = []\<rparr>)
     = disk [''0'' \<mapsto> [10, 11], ''1'' \<mapsto> [12, 13]]"
  by (simp add: fetch_eval both_chunks_def os_eval NewDownloader_def Itoa_eval)

text \<open>
  Claim C8 says that the fetch tasks and the merge use the same scratch names, so that
  every piece that was fetched is found by the merge. The program breaks this when the
  output file is named like a scratch piece, by the same defect as under claim C7. In a
  download into the file \<open>0\<close> with a concurrency of 2 both ranges are fetched, and the
  fetch phase leaves the pieces 0 and 1 with the bytes that were fetched, in whatever
  order the goroutines take their steps. The merge then creates the output file \<open>0\<close>,
  which empties piece 0 before the merge has read it; the first round appends nothing and
  removes the file \<open>0\<close>, and the second round copies piece 1 into the removed file and
  removes piece 1. \<open>Download\<close> returns \<open>nil\<close>, and no file is left: the bytes of piece 0
  were never found by the merge, and none of the fetched bytes is in the output.
\<close>

theorem Download_fetched_pieces_lost:
  "fst (Download ((server (Inr (head_ok 4)) both_chunks)\<lparr>sched := s\<rparr>)
          (NewDownloader ''http://host/file'' ''0'' 2) \<lparr>fsys = disk Map.empty, logged = []\<rparr>)
     = Inr None
   \<and> fsys (snd (snd (Download ((server (Inr (head_ok 4)) both_chunks)\<lparr>sched := s\<rparr>)
          (NewDownloader ''http://host/file'' ''0'' 2) \<lparr>fsys = disk Map.empty, logged = []\<rparr>)))
     = disk Map.empty
   \<and> fsys (fetch_phase ((server (Inr (head_ok 4)) both_chunks)\<lparr>sched := s\<rparr>)
          ((NewDownloader ''http://host/file'' ''0'' 2)\<lparr>size64 := 4, ranges := [(0, 1), (2, 3)]\<rparr>)
          \<lparr>fsys = disk Map.empty, logged = []\<rparr>)
     = disk [''0'' \<mapsto> [10, 11], ''1'' \<mapsto> [12, 13]]
   \<and> mergeFiles ((NewDownloader ''http://host/file'' ''0'' 2)\<lparr>size64 := 4, ranges := [(0, 1), (2, 3)]\<rparr>)
        (disk [''0'' \<mapsto> [10, 11], ''1'' \<mapsto> [12, 13]])
     = (None, disk Map.empty)"
proof -
  let ?net = "server (Inr (head_ok 4)) both_chunks"
  let ?d = "NewDownloader ''http://host/file'' ''0'' 2"
  let ?d2 = "?d\<lparr>size64 := 4, ranges := [(0, 1), (2, 3)]\<rparr>"
  let ?w = "\<lparr>fsys = disk Map.empty, logged = []\<rparr>"
  have D: "distinct (map (file_of (fsys ?w)) (scratch_names (nat (sint (concurrency ?d)))))" by simp
  have r: "ranges ?d = []" by (simp add: NewDownloader_def)
  from Download_any_order [where net = ?net and s = s, OF D r]
  have "fst (Download (?net\<lparr>sched := s\<rparr>) ?d ?w) = Inr None"
    and "fsys (snd (snd (Download (?net\<lparr>sched := s\<rparr>) ?d ?w))) = disk Map.empty"
    by (simp_all add: Download_example_collision)
  moreover have "fsys (fetch_phase (?net\<lparr>sched := s\<rparr>) ?d2 ?w) = disk [''0'' \<mapsto> [10, 11], ''1'' \<mapsto> [12, 13]]"
    using fetch_phase_fsys [where w = ?w and net = ?net and s = s and d = ?d2]
    by (simp add: fetch_example_collision)
  moreover have "mergeFiles ?d2 (disk [''0'' \<mapsto> [10, 11], ''1'' \<mapsto> [12, 13]]) = (None, disk Map.empty)"
    by (simp add: os_eval mergeFiles_loop.simps NewDownloader_def Itoa_eval)
  ultimately show ?thesis by simp
qed

text \<open>
  The same happens when the output path is not itself a scratch name and leads to the
  file of one: the merge into \<open>./0\<close> empties piece 0 and removes it.
\<close>

lemma mergeFiles_other_path:
  "mergeFiles (NewDownloader ''http://host/file'' ''./0'' 1)
      ((disk [''0'' \<mapsto> [1, 2]])\<lparr>file_of := (\<lambda>p. if p = ''./0'' then ''0'' else p)\<rparr>)
     = (None, (disk Map.empty)\<lparr>file_of := (\<lambda>p. if p = ''./0'' then ''0'' else p)\<rparr>)"
  by (simp add: os_eval mergeFiles_loop.simps NewDownloader_def Itoa_eval)

text \<open>
  An output path that leads to a later scratch piece makes the merge copy a file onto
  itself: with the output file \<open>1\<close> the first round appends piece 0 to the emptied file
  \<open>1\<close>, and the second round reads that file while it writes to it, until the file cannot
  grow any more.
\<close>

lemma mergeFiles_onto_itself:
  "mergeFiles (NewDownloader ''http://host/file'' ''1'' 2)
      ((disk [''0'' \<mapsto> [1, 2], ''1'' \<mapsto> [3, 4]])\<lparr>write_limit := (\<lambda>p. 5)\<rparr>)
     = (Some (PathError ''write'' ''1''),
        (disk [''1'' \<mapsto> [1, 2, 1, 2, 1]])\<lparr>write_limit := (\<lambda>p. 5)\<rparr>)"
proof -
  have c: "cycle_take 3 [1, 2 :: byte] = [1, 2, 1]"
    by (simp add: cycle_take_def numeral_3_eq_3)
  show ?thesis
    by (simp add: os_eval mergeFiles_loop.simps NewDownloader_def Itoa_eval Let_def c)
qed

end
